theory Spec2Isabelle
  imports Main
begin

section \<open>The write path of the Postgres tuple store (internal/datastore/postgres/tuple.go)\<close>

text \<open>
  The development embeds \<open>WriteTuples\<close> and \<open>exactTupleClause\<close> together with the three
  statement templates \<open>writeTuple\<close>, \<open>deleteTuple\<close> and \<open>queryTupleExists\<close>. The storage
  engine behind the transaction handle is an explicit state: the committed table, the
  rows as the open transaction sees them, the identifier sequence and the list of
  statements issued so far. An engine may refuse any statement; which ones it refuses
  is a parameter of every definition that talks to it.
\<close>

subsection \<open>Protocol messages\<close>

text \<open>
  Modelled from the spec: the messages of the v0 API are declared outside tuple.go. A
  RelationTuple is a TupleKey: object namespace, object id and relation, and subject
  namespace, subject id and subject relation; the fields are the ones the code reads.
  A tuple is modelled with both of its parts present (object-and-relation and a
  userset user): a message with a part missing makes the Go field access panic, and
  the tuples handed to the datastore have been validated before.
\<close>

record ObjectAndRelation =
  Namespace :: string
  ObjectId :: string
  Relation :: string

record RelationTuple =
  object_and_relation :: ObjectAndRelation
  userset :: ObjectAndRelation

text \<open>
  Modelled from the spec: a Mutation is an operation tag, one of CREATE, DELETE and
  TOUCH, and a tuple. The tag is a protocol enumeration declared outside tuple.go: the
  three tags the code tests for, the enumeration's zero value, and any other number
  the wire format can carry.
\<close>

datatype Operation =
    RelationTupleUpdate_UNKNOWN
  | RelationTupleUpdate_CREATE
  | RelationTupleUpdate_TOUCH
  | RelationTupleUpdate_DELETE
  | RelationTupleUpdate_other int

record RelationTupleUpdate =
  operation :: Operation
  tuple :: RelationTuple

subsection \<open>The table and its statements\<close>

datatype column =
    colNamespace
  | colObjectID
  | colRelation
  | colUsersetNamespace
  | colUsersetObjectID
  | colUsersetRelation
  | colCreatedTxn
  | colDeletedTxn

datatype sqlarg = StrArg string | NumArg nat

text \<open>
  One row of the tuple table. The surrogate id column is left out: the code selects it
  in the existence query and never looks at the value.
\<close>

record StoredRow =
  namespace :: string
  object_id :: string
  relation :: string
  userset_namespace :: string
  userset_object_id :: string
  userset_relation :: string
  created_transaction :: nat
  deleted_transaction :: nat

definition liveDeletedTxnID :: nat where
  \<comment> \<open>Modelled from the spec: the constant is declared outside tuple.go; it is the
      LIVE_SENTINEL of the data model, the value of \<open>deletedAt\<close> of a row that has not
      been closed (the largest signed 64-bit number).\<close>
  "liveDeletedTxnID = 9223372036854775807"

fun column_value :: "column \<Rightarrow> StoredRow \<Rightarrow> sqlarg" where
  "column_value colNamespace r = StrArg (namespace r)"
| "column_value colObjectID r = StrArg (object_id r)"
| "column_value colRelation r = StrArg (relation r)"
| "column_value colUsersetNamespace r = StrArg (userset_namespace r)"
| "column_value colUsersetObjectID r = StrArg (userset_object_id r)"
| "column_value colUsersetRelation r = StrArg (userset_relation r)"
| "column_value colCreatedTxn r = NumArg (created_transaction r)"
| "column_value colDeletedTxn r = NumArg (deleted_transaction r)"

fun set_column :: "column \<times> sqlarg \<Rightarrow> StoredRow \<Rightarrow> StoredRow" where
  "set_column (colNamespace, StrArg s) r = r\<lparr>namespace := s\<rparr>"
| "set_column (colObjectID, StrArg s) r = r\<lparr>object_id := s\<rparr>"
| "set_column (colRelation, StrArg s) r = r\<lparr>relation := s\<rparr>"
| "set_column (colUsersetNamespace, StrArg s) r = r\<lparr>userset_namespace := s\<rparr>"
| "set_column (colUsersetObjectID, StrArg s) r = r\<lparr>userset_object_id := s\<rparr>"
| "set_column (colUsersetRelation, StrArg s) r = r\<lparr>userset_relation := s\<rparr>"
| "set_column (colCreatedTxn, NumArg n) r = r\<lparr>created_transaction := n\<rparr>"
| "set_column (colDeletedTxn, NumArg n) r = r\<lparr>deleted_transaction := n\<rparr>"
| "set_column _ r = r"

text \<open>
  \<open>sq.Eq\<close> is a conjunction of column equalities; a statement's \<open>Where\<close> calls add up to
  a conjunction of such clauses.
\<close>

type_synonym Eq = "(column \<times> sqlarg) list"

definition eq_holds :: "Eq \<Rightarrow> StoredRow \<Rightarrow> bool" where
  "eq_holds e r = list_all (\<lambda>(c, v). column_value c r = v) e"

definition where_holds :: "Eq list \<Rightarrow> StoredRow \<Rightarrow> bool" where
  "where_holds ws r = list_all (\<lambda>e. eq_holds e r) ws"

record SelectBuilder =
  select_where :: "Eq list"
  select_limit :: "nat option"

record UpdateBuilder =
  update_where :: "Eq list"
  update_set :: "(column \<times> sqlarg) list"

record InsertBuilder =
  insert_columns :: "column list"
  insert_values :: "sqlarg list list"

definition writeTuple :: InsertBuilder where
  "writeTuple =
     \<lparr>insert_columns =
        [colNamespace, colObjectID, colRelation,
         colUsersetNamespace, colUsersetObjectID, colUsersetRelation, colCreatedTxn],
      insert_values = []\<rparr>"

definition deleteTuple :: UpdateBuilder where
  "deleteTuple =
     \<lparr>update_where = [ [(colDeletedTxn, NumArg liveDeletedTxnID)] ], update_set = []\<rparr>"

definition queryTupleExists :: SelectBuilder where
  "queryTupleExists = \<lparr>select_where = [], select_limit = None\<rparr>"

definition exactTupleClause :: "RelationTuple \<Rightarrow> Eq" where
  "exactTupleClause tpl =
     [(colNamespace, StrArg (Namespace (object_and_relation tpl))),
      (colObjectID, StrArg (ObjectId (object_and_relation tpl))),
      (colRelation, StrArg (Relation (object_and_relation tpl))),
      (colUsersetNamespace, StrArg (Namespace (userset tpl))),
      (colUsersetObjectID, StrArg (ObjectId (userset tpl))),
      (colUsersetRelation, StrArg (Relation (userset tpl)))]"

text \<open>
  The statement builder's \<open>ToSql\<close> refuses an update without a \<open>Set\<close> clause and an
  insert without a row of values; a select with a result column always builds.
\<close>

definition Select_ToSql :: "SelectBuilder \<Rightarrow> string + SelectBuilder" where
  "Select_ToSql b = Inr b"

definition Update_ToSql :: "UpdateBuilder \<Rightarrow> string + UpdateBuilder" where
  "Update_ToSql b =
     (if update_set b = [] then Inl ''update statements must have at least one Set clause''
      else Inr b)"

definition Insert_ToSql :: "InsertBuilder \<Rightarrow> string + InsertBuilder" where
  "Insert_ToSql b =
     (if insert_values b = []
      then Inl ''insert statements must have at least one set of values or select clause''
      else Inr b)"

subsection \<open>The storage engine\<close>

datatype stmt =
    Begin
  | QueryRow SelectBuilder
  | CreateNewTransaction
  | ExecUpdate UpdateBuilder
  | ExecInsert InsertBuilder
  | Commit
  | Rollback

text \<open>
  An engine decides, from the position of a statement in the call, the rows the
  transaction sees and the statement itself, whether to refuse it and with which cause
  (lost connection, cancelled context, violated constraint of the schema, ...).
\<close>

type_synonym engine = "nat \<Rightarrow> StoredRow list \<Rightarrow> stmt \<Rightarrow> string option"

text \<open>
  The datastore between two calls: the committed table, which is what a reader sees,
  and the last identifier the sequence has handed out. During a call the state also
  has the rows as the open transaction sees them, whether the transaction is closed,
  and the statements issued so far, in order.

  The table itself has no key constraint here: an update rewrites the rows its clauses
  select and an insert appends its rows. A constraint of the schema, which tuple.go
  does not declare, is one of the refusals an engine can make.
\<close>

record pgDatastore =
  relation_tuple :: "StoredRow list"
  transaction_seq :: nat

record pgx =
  committed :: "StoredRow list"
  txn_seq :: nat
  tx_view :: "StoredRow list"
  tx_closed :: bool
  issued :: "stmt list"

definition refuses :: "engine \<Rightarrow> pgx \<Rightarrow> stmt \<Rightarrow> string option" where
  "refuses eng w s = eng (length (issued w)) (tx_view w) s"

definition issue :: "stmt \<Rightarrow> pgx \<Rightarrow> pgx" where
  "issue s w = w\<lparr>issued := issued w @ [s]\<rparr>"

definition dbpool_Begin :: "engine \<Rightarrow> pgDatastore \<Rightarrow> string option \<times> pgx" where
  "dbpool_Begin eng pgd =
     (let w = \<lparr>committed = relation_tuple pgd, txn_seq = transaction_seq pgd,
               tx_view = relation_tuple pgd, tx_closed = False, issued = []\<rparr>
      in case refuses eng w Begin of
           Some e \<Rightarrow> (Some e, issue Begin (w\<lparr>tx_closed := True\<rparr>))
         | None \<Rightarrow> (None, issue Begin w))"

datatype scan = Scanned | ErrNoRows | ScanError string

definition tx_QueryRow_Scan :: "engine \<Rightarrow> SelectBuilder \<Rightarrow> pgx \<Rightarrow> scan \<times> pgx" where
  "tx_QueryRow_Scan eng q w =
     (case refuses eng w (QueryRow q) of
        Some e \<Rightarrow> (ScanError e, issue (QueryRow q) w)
      | None \<Rightarrow>
          (if filter (where_holds (select_where q)) (tx_view w) = [] \<or> select_limit q = Some 0
           then ErrNoRows else Scanned,
           issue (QueryRow q) w))"

definition exec_update :: "UpdateBuilder \<Rightarrow> StoredRow list \<Rightarrow> StoredRow list" where
  "exec_update u rows =
     map (\<lambda>r. if where_holds (update_where u) r then fold set_column (update_set u) r else r) rows"

definition tx_ExecUpdate :: "engine \<Rightarrow> UpdateBuilder \<Rightarrow> pgx \<Rightarrow> string option \<times> pgx" where
  "tx_ExecUpdate eng u w =
     (case refuses eng w (ExecUpdate u) of
        Some e \<Rightarrow> (Some e, issue (ExecUpdate u) w)
      | None \<Rightarrow> (None, issue (ExecUpdate u) (w\<lparr>tx_view := exec_update u (tx_view w)\<rparr>)))"

definition default_row :: StoredRow where
  \<comment> \<open>Modelled from the spec: the column defaults of the table are declared outside
      tuple.go; a row that is inserted is live, its \<open>deletedAt\<close> is the sentinel.\<close>
  "default_row =
     \<lparr>namespace = [], object_id = [], relation = [],
      userset_namespace = [], userset_object_id = [], userset_relation = [],
      created_transaction = 0, deleted_transaction = liveDeletedTxnID\<rparr>"

definition insert_row :: "column list \<Rightarrow> sqlarg list \<Rightarrow> StoredRow" where
  "insert_row cols vals = fold set_column (zip cols vals) default_row"

definition exec_insert :: "InsertBuilder \<Rightarrow> StoredRow list \<Rightarrow> StoredRow list" where
  "exec_insert b rows = rows @ map (insert_row (insert_columns b)) (insert_values b)"

definition tx_ExecInsert :: "engine \<Rightarrow> InsertBuilder \<Rightarrow> pgx \<Rightarrow> string option \<times> pgx" where
  "tx_ExecInsert eng b w =
     (case refuses eng w (ExecInsert b) of
        Some e \<Rightarrow> (Some e, issue (ExecInsert b) w)
      | None \<Rightarrow> (None, issue (ExecInsert b) (w\<lparr>tx_view := exec_insert b (tx_view w)\<rparr>)))"

definition createNewTransaction :: "engine \<Rightarrow> pgx \<Rightarrow> (string + nat) \<times> pgx" where
  \<comment> \<open>Modelled from the spec: createNewTransaction is defined outside tuple.go. It is
      the Revision Allocator: it produces a strictly increasing identifier, and an
      identifier handed to a transaction that rolls back is not handed out again.\<close>
  "createNewTransaction eng w =
     (case refuses eng w CreateNewTransaction of
        Some e \<Rightarrow> (Inl e, issue CreateNewTransaction w)
      | None \<Rightarrow>
          (Inr (Suc (txn_seq w)), issue CreateNewTransaction (w\<lparr>txn_seq := Suc (txn_seq w)\<rparr>)))"

definition tx_Commit :: "engine \<Rightarrow> pgx \<Rightarrow> string option \<times> pgx" where
  "tx_Commit eng w =
     (case refuses eng w Commit of
        Some e \<Rightarrow> (Some e, issue Commit w)
      | None \<Rightarrow> (None, issue Commit (w\<lparr>committed := tx_view w, tx_closed := True\<rparr>)))"

definition tx_Rollback :: "pgx \<Rightarrow> pgx" where
  \<comment> \<open>The deferred call: it discards the transaction unless it is closed already.\<close>
  "tx_Rollback w =
     (if tx_closed w then issue Rollback w
      else issue Rollback (w\<lparr>tx_view := committed w, tx_closed := True\<rparr>))"

definition datastore_of :: "pgx \<Rightarrow> pgDatastore" where
  "datastore_of w = \<lparr>relation_tuple = committed w, transaction_seq = txn_seq w\<rparr>"

subsection \<open>Errors and revisions\<close>

text \<open>
  The two kinds of error a call returns: the precondition failure built by
  \<open>NewPreconditionFailedErr\<close>, and \<open>fmt.Errorf\<close> applied to a format string and the
  cause it wraps. In place of the pair of Go results (\<open>NoRevision\<close> beside the error, or
  the revision beside \<open>nil\<close>) a call returns a sum.
\<close>

datatype error =
    ErrPreconditionFailed RelationTuple
  | Errorf string string

definition errUnableToWriteTuples :: string where
  "errUnableToWriteTuples = ''unable to write tuples: %w''"

definition NewPreconditionFailedErr :: "RelationTuple \<Rightarrow> error" where
  \<comment> \<open>Modelled from the spec: the constructor is defined outside tuple.go;
      PreconditionFailed carries the offending tuple and wraps no lower-level cause.\<close>
  "NewPreconditionFailedErr tpl = ErrPreconditionFailed tpl"

type_synonym Revision = int

definition revisionFromTransaction :: "nat \<Rightarrow> Revision" where
  \<comment> \<open>Modelled from the spec: the revision codec is defined outside tuple.go; the
      revision is derived deterministically and monotonically from the transaction
      identifier.\<close>
  "revisionFromTransaction txID = int txID"

subsection \<open>WriteTuples\<close>

text \<open>The loop over the preconditions (lines 46 to 61).\<close>

fun check_preconditions :: "engine \<Rightarrow> RelationTuple list \<Rightarrow> pgx \<Rightarrow> error option \<times> pgx" where
  "check_preconditions eng [] w = (None, w)"
| "check_preconditions eng (tpl # rest) w =
     (case Select_ToSql
             ((queryTupleExists\<lparr>select_where := select_where queryTupleExists @ [exactTupleClause tpl]\<rparr>)
                \<lparr>select_limit := Some 1\<rparr>) of
        Inl err \<Rightarrow> (Some (Errorf errUnableToWriteTuples err), w)
      | Inr sql \<Rightarrow>
          (case tx_QueryRow_Scan eng sql w of
             (Scanned, w') \<Rightarrow> check_preconditions eng rest w'
           | (ErrNoRows, w') \<Rightarrow> (Some (NewPreconditionFailedErr tpl), w')
           | (ScanError err, w') \<Rightarrow> (Some (Errorf errUnableToWriteTuples err), w')))"

text \<open>
  The loop over the mutations (lines 72 to 98). It carries the insert statement under
  construction and the flag \<open>bulkWriteHasValues\<close>.
\<close>

definition is_close :: "Operation \<Rightarrow> bool" where
  "is_close op = (op = RelationTupleUpdate_TOUCH \<or> op = RelationTupleUpdate_DELETE)"

definition is_insert :: "Operation \<Rightarrow> bool" where
  "is_insert op = (op = RelationTupleUpdate_TOUCH \<or> op = RelationTupleUpdate_CREATE)"

definition close_stmt :: "nat \<Rightarrow> RelationTuple \<Rightarrow> UpdateBuilder" where
  "close_stmt newTxnID tpl =
     (deleteTuple\<lparr>update_where := update_where deleteTuple @ [exactTupleClause tpl]\<rparr>)
       \<lparr>update_set := update_set deleteTuple @ [(colDeletedTxn, NumArg newTxnID)]\<rparr>"

definition tuple_values :: "nat \<Rightarrow> RelationTuple \<Rightarrow> sqlarg list" where
  "tuple_values newTxnID tpl =
     [StrArg (Namespace (object_and_relation tpl)),
      StrArg (ObjectId (object_and_relation tpl)),
      StrArg (Relation (object_and_relation tpl)),
      StrArg (Namespace (userset tpl)),
      StrArg (ObjectId (userset tpl)),
      StrArg (Relation (userset tpl)),
      NumArg newTxnID]"

definition Values :: "sqlarg list \<Rightarrow> InsertBuilder \<Rightarrow> InsertBuilder" where
  "Values vals b = b\<lparr>insert_values := insert_values b @ [vals]\<rparr>"

fun process_updates ::
  "engine \<Rightarrow> nat \<Rightarrow> RelationTupleUpdate list \<Rightarrow> InsertBuilder \<Rightarrow> bool \<Rightarrow> pgx \<Rightarrow>
     error option \<times> InsertBuilder \<times> bool \<times> pgx" where
  "process_updates eng newTxnID [] bulkWrite bulkWriteHasValues w =
     (None, bulkWrite, bulkWriteHasValues, w)"
| "process_updates eng newTxnID (mutation # rest) bulkWrite bulkWriteHasValues w =
     (let tpl = tuple mutation;
          (err, w1) =
            (if is_close (operation mutation)
             then (case Update_ToSql (close_stmt newTxnID tpl) of
                     Inl e \<Rightarrow> (Some e, w)
                   | Inr sql \<Rightarrow> tx_ExecUpdate eng sql w)
             else (None, w))
      in case err of
           Some e \<Rightarrow> (Some (Errorf errUnableToWriteTuples e), bulkWrite, bulkWriteHasValues, w1)
         | None \<Rightarrow>
             (if is_insert (operation mutation)
              then process_updates eng newTxnID rest
                     (Values (tuple_values newTxnID tpl) bulkWrite) True w1
              else process_updates eng newTxnID rest bulkWrite bulkWriteHasValues w1))"

text \<open>The body between the deferred rollback and the return (lines 45 to 117).\<close>

definition WriteTuples_tx ::
  "engine \<Rightarrow> RelationTuple list \<Rightarrow> RelationTupleUpdate list \<Rightarrow> pgx \<Rightarrow> (error + Revision) \<times> pgx" where
  "WriteTuples_tx eng preconditions mutations w =
     (case check_preconditions eng preconditions w of
        (Some err, w1) \<Rightarrow> (Inl err, w1)
      | (None, w1) \<Rightarrow>
          (case createNewTransaction eng w1 of
             (Inl err, w2) \<Rightarrow> (Inl (Errorf errUnableToWriteTuples err), w2)
           | (Inr newTxnID, w2) \<Rightarrow>
               (case process_updates eng newTxnID mutations writeTuple False w2 of
                  (Some err, bulkWrite, bulkWriteHasValues, w3) \<Rightarrow> (Inl err, w3)
                | (None, bulkWrite, bulkWriteHasValues, w3) \<Rightarrow>
                    (case (if bulkWriteHasValues
                           then (case Insert_ToSql bulkWrite of
                                   Inl e \<Rightarrow> (Some e, w3)
                                 | Inr sql \<Rightarrow> tx_ExecInsert eng sql w3)
                           else (None, w3)) of
                       (Some err, w4) \<Rightarrow> (Inl (Errorf errUnableToWriteTuples err), w4)
                     | (None, w4) \<Rightarrow>
                         (case tx_Commit eng w4 of
                            (Some err, w5) \<Rightarrow> (Inl (Errorf errUnableToWriteTuples err), w5)
                          | (None, w5) \<Rightarrow> (Inr (revisionFromTransaction newTxnID), w5))))))"

text \<open>
  The whole call: the result, the datastore after the call and the statements the call
  issued, in order.
\<close>

definition WriteTuples ::
  "engine \<Rightarrow> pgDatastore \<Rightarrow> RelationTuple list \<Rightarrow> RelationTupleUpdate list \<Rightarrow>
     (error + Revision) \<times> pgDatastore \<times> stmt list" where
  "WriteTuples eng pgd preconditions mutations =
     (case dbpool_Begin eng pgd of
        (Some err, w) \<Rightarrow> (Inl (Errorf errUnableToWriteTuples err), datastore_of w, issued w)
      | (None, w) \<Rightarrow>
          (case WriteTuples_tx eng preconditions mutations w of
             (res, w') \<Rightarrow> (res, datastore_of (tx_Rollback w'), issued (tx_Rollback w'))))"

section \<open>Vocabulary of the properties\<close>

subsection \<open>Rows, keys and liveness\<close>

text \<open>The key of a stored row: the six columns \<open>exactTupleClause\<close> compares.\<close>

definition row_key :: "StoredRow \<Rightarrow> RelationTuple" where
  "row_key r =
     \<lparr>object_and_relation =
        \<lparr>Namespace = namespace r, ObjectId = object_id r, Relation = relation r\<rparr>,
      userset =
        \<lparr>Namespace = userset_namespace r, ObjectId = userset_object_id r,
         Relation = userset_relation r\<rparr>\<rparr>"

definition live :: "StoredRow \<Rightarrow> bool" where
  "live r = (deleted_transaction r = liveDeletedTxnID)"

definition live_rows :: "RelationTuple \<Rightarrow> StoredRow list \<Rightarrow> StoredRow list" where
  "live_rows tpl rows = filter (\<lambda>r. live r \<and> row_key r = tpl) rows"

text \<open>Some row with the key is stored, live or closed.\<close>

definition stored :: "RelationTuple \<Rightarrow> StoredRow list \<Rightarrow> bool" where
  "stored tpl rows = list_ex (\<lambda>r. row_key r = tpl) rows"

text \<open>At most one live row for each key.\<close>

definition one_live_per_key :: "StoredRow list \<Rightarrow> bool" where
  "one_live_per_key rows = distinct (map row_key (filter live rows))"

definition new_row :: "nat \<Rightarrow> RelationTuple \<Rightarrow> StoredRow" where
  "new_row txn tpl =
     \<lparr>namespace = Namespace (object_and_relation tpl),
      object_id = ObjectId (object_and_relation tpl),
      relation = Relation (object_and_relation tpl),
      userset_namespace = Namespace (userset tpl),
      userset_object_id = ObjectId (userset tpl),
      userset_relation = Relation (userset tpl),
      created_transaction = txn,
      deleted_transaction = liveDeletedTxnID\<rparr>"

definition closed_row :: "nat \<Rightarrow> nat \<Rightarrow> RelationTuple \<Rightarrow> StoredRow" where
  "closed_row created deleted tpl = (new_row created tpl)\<lparr>deleted_transaction := deleted\<rparr>"

subsection \<open>What a list of mutations asks for\<close>

definition closed_tuples :: "RelationTupleUpdate list \<Rightarrow> RelationTuple list" where
  "closed_tuples muts = map tuple (filter (\<lambda>m. is_close (operation m)) muts)"

definition inserted_tuples :: "RelationTupleUpdate list \<Rightarrow> RelationTuple list" where
  "inserted_tuples muts = map tuple (filter (\<lambda>m. is_insert (operation m)) muts)"

definition close_rows :: "nat \<Rightarrow> RelationTuple list \<Rightarrow> StoredRow list \<Rightarrow> StoredRow list" where
  "close_rows txn ts rows =
     map (\<lambda>r. if live r \<and> row_key r \<in> set ts then r\<lparr>deleted_transaction := txn\<rparr> else r) rows"

definition rows_after :: "nat \<Rightarrow> RelationTupleUpdate list \<Rightarrow> StoredRow list \<Rightarrow> StoredRow list" where
  "rows_after txn muts rows =
     close_rows txn (closed_tuples muts) rows @ map (new_row txn) (inserted_tuples muts)"

subsection \<open>The statements of a call\<close>

definition precondition_query :: "RelationTuple \<Rightarrow> SelectBuilder" where
  "precondition_query tpl = \<lparr>select_where = [exactTupleClause tpl], select_limit = Some 1\<rparr>"

definition bulk_insert :: "nat \<Rightarrow> RelationTupleUpdate list \<Rightarrow> InsertBuilder" where
  "bulk_insert txn muts = writeTuple\<lparr>insert_values := map (tuple_values txn) (inserted_tuples muts)\<rparr>"

abbreviation queries :: "RelationTuple list \<Rightarrow> stmt list" where
  "queries pre \<equiv> map (\<lambda>t. QueryRow (precondition_query t)) pre"

abbreviation closes :: "nat \<Rightarrow> RelationTuple list \<Rightarrow> stmt list" where
  "closes txn ts \<equiv> map (\<lambda>t. ExecUpdate (close_stmt txn t)) ts"

text \<open>
  The statements of a call that runs to its end, after \<open>Begin\<close>: one query for each
  precondition, the allocation, one update for each closing mutation, the batched
  insert when a row was staged, the commit.
\<close>

definition body_plan :: "nat \<Rightarrow> RelationTuple list \<Rightarrow> RelationTupleUpdate list \<Rightarrow> stmt list" where
  "body_plan txn pre muts =
     queries pre @
     [CreateNewTransaction] @
     closes txn (closed_tuples muts) @
     (if inserted_tuples muts = [] then [] else [ExecInsert (bulk_insert txn muts)]) @
     [Commit]"

definition plan :: "nat \<Rightarrow> RelationTuple list \<Rightarrow> RelationTupleUpdate list \<Rightarrow> stmt list" where
  "plan txn pre muts = Begin # body_plan txn pre muts"

text \<open>
  Where a call can stop: inside the preconditions, at the allocation or inside the
  updates, at the insert, or at the commit.
\<close>

definition stops :: "nat \<Rightarrow> RelationTuple list \<Rightarrow> RelationTupleUpdate list \<Rightarrow> stmt list \<Rightarrow> bool" where
  "stops txn pre muts T \<longleftrightarrow>
     (\<exists>k. 0 < k \<and> k \<le> length pre \<and> T = queries (take k pre)) \<or>
     (\<exists>k. k \<le> length (closed_tuples muts) \<and>
          T = queries pre @ CreateNewTransaction # closes txn (take k (closed_tuples muts))) \<or>
     (inserted_tuples muts \<noteq> [] \<and>
        T = queries pre @ CreateNewTransaction # closes txn (closed_tuples muts) @
            [ExecInsert (bulk_insert txn muts)]) \<or>
     T = body_plan txn pre muts"

fun is_ExecUpdate :: "stmt \<Rightarrow> bool" where
  "is_ExecUpdate (ExecUpdate u) = True"
| "is_ExecUpdate _ = False"

fun is_ExecInsert :: "stmt \<Rightarrow> bool" where
  "is_ExecInsert (ExecInsert b) = True"
| "is_ExecInsert _ = False"

subsection \<open>Calls one after the other\<close>

type_synonym call = "engine \<times> RelationTuple list \<times> RelationTupleUpdate list"

fun after_calls :: "call list \<Rightarrow> pgDatastore \<Rightarrow> pgDatastore" where
  "after_calls [] pgd = pgd"
| "after_calls ((eng, pre, muts) # cs) pgd =
     after_calls cs (fst (snd (WriteTuples eng pgd pre muts)))"

subsection \<open>Concrete tuples, rows and engines\<close>

definition tuple_a :: RelationTuple where
  "tuple_a =
     \<lparr>object_and_relation = \<lparr>Namespace = ''document'', ObjectId = ''readme'', Relation = ''viewer''\<rparr>,
      userset = \<lparr>Namespace = ''user'', ObjectId = ''alice'', Relation = ''...''\<rparr>\<rparr>"

definition tuple_b :: RelationTuple where
  "tuple_b =
     \<lparr>object_and_relation = \<lparr>Namespace = ''document'', ObjectId = ''readme'', Relation = ''viewer''\<rparr>,
      userset = \<lparr>Namespace = ''user'', ObjectId = ''bob'', Relation = ''...''\<rparr>\<rparr>"

definition no_refusal :: engine where
  "no_refusal = (\<lambda>i v s. None)"

text \<open>
  Modelled from the spec: the schema of the tuple table is declared outside tuple.go.
  The storage layer has its own key constraints, on which the code relies for a
  duplicate row: an engine enforces the key constraint when it refuses every insert
  that would leave two live rows with one key in the table. \<open>unique_living\<close> is the
  engine that refuses these inserts and nothing else.
\<close>

definition enforces_one_live_per_key :: "engine \<Rightarrow> bool" where
  "enforces_one_live_per_key eng \<longleftrightarrow>
     (\<forall>i v b. \<not> one_live_per_key (exec_insert b v) \<longrightarrow> eng i v (ExecInsert b) \<noteq> None)"

definition unique_living :: engine where
  "unique_living =
     (\<lambda>i v s. case s of
        ExecInsert b \<Rightarrow>
          if one_live_per_key (exec_insert b v) then None
          else Some ''duplicate key value violates unique constraint''
      | _ \<Rightarrow> None)"

text \<open>An engine that refuses the statement at one position of the call.\<close>

definition refuse_at :: "nat \<Rightarrow> string \<Rightarrow> engine" where
  "refuse_at k cause = (\<lambda>i v s. if i = k then Some cause else None)"

section \<open>The statements and the rows of a call\<close>

lemma exactTupleClause_holds: "eq_holds (exactTupleClause tpl) r \<longleftrightarrow> row_key r = tpl"
  by (cases tpl; cases r; cases "object_and_relation tpl"; cases "userset tpl") (auto simp: eq_holds_def exactTupleClause_def row_key_def)

lemma exec_update_close:
  "exec_update (close_stmt n tpl) rows =
     map (\<lambda>r. if live r \<and> row_key r = tpl then r\<lparr>deleted_transaction := n\<rparr> else r) rows"
  by (simp add: exec_update_def close_stmt_def deleteTuple_def where_holds_def exactTupleClause_holds live_def) (simp add: eq_holds_def)

lemma insert_row_tuple_values:
  "insert_row (insert_columns writeTuple) (tuple_values n tpl) = new_row n tpl"
  by (simp add: insert_row_def writeTuple_def tuple_values_def new_row_def default_row_def)

lemma row_key_new_row: "row_key (new_row n tpl) = tpl"
  by (simp add: row_key_def new_row_def)

lemma close_rows_Cons:
  "close_rows n ts (exec_update (close_stmt n t) rows) = close_rows n (t # ts) rows"
  by (auto simp: exec_update_close close_rows_def live_def row_key_def)

lemma tx_QueryRow_Scan_precondition:
  "tx_QueryRow_Scan eng (precondition_query tpl) w =
     ((case refuses eng w (QueryRow (precondition_query tpl)) of
         Some e \<Rightarrow> ScanError e
       | None \<Rightarrow> if stored tpl (tx_view w) then Scanned else ErrNoRows),
      issue (QueryRow (precondition_query tpl)) w)"
  by (simp add: tx_QueryRow_Scan_def precondition_query_def where_holds_def
      exactTupleClause_holds stored_def filter_empty_conv list_ex_iff split: option.splits)

lemma check_preconditions_Cons:
  "check_preconditions eng (tpl # rest) w =
     (case refuses eng w (QueryRow (precondition_query tpl)) of
        Some e \<Rightarrow> (Some (Errorf errUnableToWriteTuples e), issue (QueryRow (precondition_query tpl)) w)
      | None \<Rightarrow>
          if stored tpl (tx_view w)
          then check_preconditions eng rest (issue (QueryRow (precondition_query tpl)) w)
          else (Some (ErrPreconditionFailed tpl), issue (QueryRow (precondition_query tpl)) w))"
proof -
  have q: "(queryTupleExists\<lparr>select_where := select_where queryTupleExists @ [exactTupleClause tpl]\<rparr>)
             \<lparr>select_limit := Some 1\<rparr> = precondition_query tpl"
    by (simp add: queryTupleExists_def precondition_query_def)
  show ?thesis
    unfolding check_preconditions.simps q
    by (simp add: Select_ToSql_def tx_QueryRow_Scan_precondition NewPreconditionFailedErr_def
        split: option.splits)
qed

declare check_preconditions.simps(2) [simp del]

lemma check_preconditions_shape:
  "check_preconditions eng pre w = (r, w') \<Longrightarrow>
   \<exists>k. k \<le> length pre \<and>
       w' = w\<lparr>issued := issued w @ map (\<lambda>t. QueryRow (precondition_query t)) (take k pre)\<rparr> \<and>
       (r = None \<longrightarrow> k = length pre) \<and> (r \<noteq> None \<longrightarrow> 0 < k)"
proof (induction pre arbitrary: w)
  case Nil
  then show ?case by auto
next
  case (Cons t pre)
  let ?w1 = "issue (QueryRow (precondition_query t)) w"
  show ?case
  proof (cases "refuses eng w (QueryRow (precondition_query t)) = None \<and> stored t (tx_view w)")
    case True
    then have "check_preconditions eng pre ?w1 = (r, w')"
      using Cons.prems by (simp add: check_preconditions_Cons)
    from Cons.IH[OF this] obtain k where k: "k \<le> length pre"
      "w' = ?w1\<lparr>issued := issued ?w1 @ map (\<lambda>t. QueryRow (precondition_query t)) (take k pre)\<rparr>"
      "r = None \<longrightarrow> k = length pre" by blast
    show ?thesis
      by (rule exI[of _ "Suc k"]) (use k in \<open>simp add: issue_def\<close>)
  next
    case False
    then have "r \<noteq> None \<and> w' = ?w1"
      using Cons.prems by (auto simp: check_preconditions_Cons split: option.splits if_splits)
    then show ?thesis
      by (intro exI[of _ "Suc 0"]) (auto simp: issue_def)
  qed
qed

lemma check_preconditions_result:
  "check_preconditions eng pre w = (r, w') \<Longrightarrow>
     (r = None \<longrightarrow> (\<forall>t \<in> set pre. stored t (tx_view w))) \<and>
     (\<forall>e. r = Some e \<longrightarrow>
        (\<exists>t \<in> set pre. e = ErrPreconditionFailed t \<and> \<not> stored t (tx_view w)) \<or>
        (\<exists>c i v s. eng i v s = Some c \<and> e = Errorf errUnableToWriteTuples c))"
proof (induction pre arbitrary: w)
  case Nil
  then show ?case by auto
next
  case (Cons t pre)
  have v: "tx_view (issue s w) = tx_view w" for s by (simp add: issue_def)
  show ?case
  proof (cases "refuses eng w (QueryRow (precondition_query t))")
    case (Some c)
    then have "eng (length (issued w)) (tx_view w) (QueryRow (precondition_query t)) = Some c"
      by (simp add: refuses_def)
    then have "\<exists>i v s. eng i v s = Some c" by blast
    then show ?thesis
      using Cons.prems Some by (auto simp: check_preconditions_Cons)
  next
    case None
    then show ?thesis
      using Cons.prems Cons.IH[of "issue (QueryRow (precondition_query t)) w"]
      by (auto simp: check_preconditions_Cons v split: if_splits)
  qed
qed

lemma check_preconditions_no_refusal:
  "(\<And>i v s. eng i v s = None) \<Longrightarrow>
     fst (check_preconditions eng pre w) =
       (case find (\<lambda>t. \<not> stored t (tx_view w)) pre of
          None \<Rightarrow> None | Some t \<Rightarrow> Some (ErrPreconditionFailed t))"
proof (induction pre arbitrary: w)
  case Nil
  then show ?case by simp
next
  case (Cons t pre)
  have v: "tx_view (issue s w) = tx_view w" for s by (simp add: issue_def)
  show ?case
    using Cons.prems Cons.IH[of "issue (QueryRow (precondition_query t)) w"]
    by (simp add: check_preconditions_Cons v refuses_def)
qed

lemma process_updates_Cons:
  "process_updates eng n (m # rest) b h w =
     (if is_close (operation m)
      then (case refuses eng w (ExecUpdate (close_stmt n (tuple m))) of
              Some e \<Rightarrow> (Some (Errorf errUnableToWriteTuples e), b, h,
                         issue (ExecUpdate (close_stmt n (tuple m))) w)
            | None \<Rightarrow>
                if is_insert (operation m)
                then process_updates eng n rest (Values (tuple_values n (tuple m)) b) True
                       (issue (ExecUpdate (close_stmt n (tuple m)))
                          (w\<lparr>tx_view := exec_update (close_stmt n (tuple m)) (tx_view w)\<rparr>))
                else process_updates eng n rest b h
                       (issue (ExecUpdate (close_stmt n (tuple m)))
                          (w\<lparr>tx_view := exec_update (close_stmt n (tuple m)) (tx_view w)\<rparr>)))
      else if is_insert (operation m)
           then process_updates eng n rest (Values (tuple_values n (tuple m)) b) True w
           else process_updates eng n rest b h w)"
proof -
  have u: "Update_ToSql (close_stmt n t) = Inr (close_stmt n t)" for t
    by (simp add: Update_ToSql_def close_stmt_def)
  show ?thesis
    by (simp add: Let_def u tx_ExecUpdate_def split: option.splits)
qed

declare process_updates.simps(2) [simp del]

lemma process_updates_shape:
  "process_updates eng n muts b h w = (r, b', h', w') \<Longrightarrow>
   \<exists>k. k \<le> length (closed_tuples muts) \<and>
       issued w' = issued w @ map (\<lambda>t. ExecUpdate (close_stmt n t)) (take k (closed_tuples muts)) \<and>
       committed w' = committed w \<and> txn_seq w' = txn_seq w \<and> tx_closed w' = tx_closed w \<and>
       (r = None \<longrightarrow> k = length (closed_tuples muts))"
proof (induction muts arbitrary: b h w)
  case Nil
  then show ?case by (auto simp: closed_tuples_def)
next
  case (Cons m muts)
  let ?u = "ExecUpdate (close_stmt n (tuple m))"
  let ?w1 = "issue ?u (w\<lparr>tx_view := exec_update (close_stmt n (tuple m)) (tx_view w)\<rparr>)"
  show ?case
  proof (cases "is_close (operation m)")
    case False
    then obtain b1 h1 where "process_updates eng n muts b1 h1 w = (r, b', h', w')"
      using Cons.prems by (auto simp: process_updates_Cons split: if_splits)
    from Cons.IH[OF this] show ?thesis
      using False by (simp add: closed_tuples_def)
  next
    case True
    show ?thesis
    proof (cases "refuses eng w ?u")
      case (Some e)
      then have "w' = issue ?u w \<and> r \<noteq> None"
        using Cons.prems True by (auto simp: process_updates_Cons)
      then show ?thesis
        using True by (intro exI[of _ "Suc 0"]) (auto simp: issue_def closed_tuples_def)
    next
      case None
      then obtain b1 h1 where "process_updates eng n muts b1 h1 ?w1 = (r, b', h', w')"
        using Cons.prems True by (auto simp: process_updates_Cons split: if_splits)
      from Cons.IH[OF this] obtain k where k: "k \<le> length (closed_tuples muts)"
        "issued w' = issued ?w1 @ map (\<lambda>t. ExecUpdate (close_stmt n t)) (take k (closed_tuples muts))"
        "committed w' = committed ?w1" "txn_seq w' = txn_seq ?w1" "tx_closed w' = tx_closed ?w1"
        "r = None \<longrightarrow> k = length (closed_tuples muts)" by blast
      show ?thesis
        using True k by (intro exI[of _ "Suc k"]) (simp add: issue_def closed_tuples_def)
    qed
  qed
qed

lemma process_updates_None:
  "process_updates eng n muts b h w = (None, b', h', w') \<Longrightarrow>
     w' = w\<lparr>issued := issued w @ map (\<lambda>t. ExecUpdate (close_stmt n t)) (closed_tuples muts),
            tx_view := close_rows n (closed_tuples muts) (tx_view w)\<rparr> \<and>
     b' = b\<lparr>insert_values := insert_values b @ map (tuple_values n) (inserted_tuples muts)\<rparr> \<and>
     h' = (h \<or> inserted_tuples muts \<noteq> [])"
proof (induction muts arbitrary: b h w)
  case Nil
  then show ?case by (simp add: closed_tuples_def inserted_tuples_def close_rows_def)
next
  case (Cons m muts)
  let ?u = "ExecUpdate (close_stmt n (tuple m))"
  let ?w1 = "issue ?u (w\<lparr>tx_view := exec_update (close_stmt n (tuple m)) (tx_view w)\<rparr>)"
  let ?b1 = "Values (tuple_values n (tuple m)) b"
  consider (ci) "is_close (operation m)" "is_insert (operation m)"
    | (c) "is_close (operation m)" "\<not> is_insert (operation m)"
    | (i) "\<not> is_close (operation m)" "is_insert (operation m)"
    | (n) "\<not> is_close (operation m)" "\<not> is_insert (operation m)" by blast
  then show ?case
  proof cases
    case ci
    then have "process_updates eng n muts ?b1 True ?w1 = (None, b', h', w')"
      using Cons.prems by (auto simp: process_updates_Cons split: option.splits)
    from Cons.IH[OF this] show ?thesis
      using ci by (simp add: issue_def closed_tuples_def inserted_tuples_def Values_def close_rows_Cons)
  next
    case c
    then have "process_updates eng n muts b h ?w1 = (None, b', h', w')"
      using Cons.prems by (auto simp: process_updates_Cons split: option.splits)
    from Cons.IH[OF this] show ?thesis
      using c by (simp add: issue_def closed_tuples_def inserted_tuples_def close_rows_Cons)
  next
    case i
    then have "process_updates eng n muts ?b1 True w = (None, b', h', w')"
      using Cons.prems by (auto simp: process_updates_Cons split: option.splits)
    from Cons.IH[OF this] show ?thesis
      using i by (simp add: closed_tuples_def inserted_tuples_def Values_def)
  next
    case n
    then have "process_updates eng n muts b h w = (None, b', h', w')"
      using Cons.prems by (auto simp: process_updates_Cons split: option.splits)
    from Cons.IH[OF this] show ?thesis
      using n by (simp add: closed_tuples_def inserted_tuples_def)
  qed
qed

lemma exec_insert_bulk:
  "exec_insert (bulk_insert n muts) rows = rows @ map (new_row n) (inserted_tuples muts)"
  by (simp add: exec_insert_def bulk_insert_def insert_row_tuple_values)

lemma WriteTuples_tx_Inr:
  assumes "WriteTuples_tx eng pre muts w = (Inr rv, w')"
  shows "rv = revisionFromTransaction (Suc (txn_seq w))"
    and "w' = w\<lparr>issued := issued w @ body_plan (Suc (txn_seq w)) pre muts,
                txn_seq := Suc (txn_seq w),
                tx_view := rows_after (Suc (txn_seq w)) muts (tx_view w),
                committed := rows_after (Suc (txn_seq w)) muts (tx_view w),
                tx_closed := True\<rparr>"
    and "\<forall>t \<in> set pre. stored t (tx_view w)"
proof -
  let ?n = "Suc (txn_seq w)"
  obtain r1 w1 where c1: "check_preconditions eng pre w = (r1, w1)" by fastforce
  have r1: "r1 = None"
    using assms c1 by (cases r1) (simp_all add: WriteTuples_tx_def)
  from check_preconditions_shape[OF c1] r1
  have w1: "w1 = w\<lparr>issued := issued w @ map (\<lambda>t. QueryRow (precondition_query t)) pre\<rparr>"
    by auto
  from check_preconditions_result[OF c1] r1
  show "\<forall>t \<in> set pre. stored t (tx_view w)" by simp
  let ?w2 = "issue CreateNewTransaction (w1\<lparr>txn_seq := Suc (txn_seq w1)\<rparr>)"
  have c2: "createNewTransaction eng w1 = (Inr ?n, ?w2)"
    using assms c1 r1 w1
    by (auto simp: WriteTuples_tx_def createNewTransaction_def split: option.splits)
  obtain r3 b3 h3 w3 where c3: "process_updates eng ?n muts writeTuple False ?w2 = (r3, b3, h3, w3)"
    using prod_cases4 by blast
  have r3: "r3 = None"
    using assms c1 r1 c2 c3 by (cases r3) (simp_all add: WriteTuples_tx_def)
  from process_updates_None[OF c3[unfolded r3]]
  have w3: "w3 = ?w2\<lparr>issued := issued ?w2 @ map (\<lambda>t. ExecUpdate (close_stmt ?n t)) (closed_tuples muts),
                      tx_view := close_rows ?n (closed_tuples muts) (tx_view ?w2)\<rparr>"
    and b3: "b3 = bulk_insert ?n muts"
    and h3: "h3 = (inserted_tuples muts \<noteq> [])"
    by (simp_all add: bulk_insert_def writeTuple_def)
  have ts: "h3 \<Longrightarrow> Insert_ToSql b3 = Inr b3"
    by (simp add: b3 h3 Insert_ToSql_def bulk_insert_def)
  let ?w4 = "if h3 then issue (ExecInsert b3) (w3\<lparr>tx_view := exec_insert b3 (tx_view w3)\<rparr>) else w3"
  have c4: "(if h3 then (case Insert_ToSql b3 of Inl e \<Rightarrow> (Some e, w3)
                         | Inr sql \<Rightarrow> tx_ExecInsert eng sql w3)
             else (None, w3)) = (None, ?w4)"
    using assms c1 r1 c2 c3 r3 ts
    by (auto simp: WriteTuples_tx_def tx_ExecInsert_def split: option.splits if_splits prod.splits)
  have c5: "tx_Commit eng ?w4 = (None, w')" and rv: "rv = revisionFromTransaction ?n"
    using assms c1 r1 c2 c3 r3 c4
    by (auto simp: WriteTuples_tx_def split: option.splits prod.splits)
  show "rv = revisionFromTransaction ?n" by (rule rv)
  have w': "w' = issue Commit (?w4\<lparr>committed := tx_view ?w4, tx_closed := True\<rparr>)"
    using c5 by (auto simp: tx_Commit_def split: option.splits)
  show "w' = w\<lparr>issued := issued w @ body_plan ?n pre muts,
                txn_seq := ?n,
                tx_view := rows_after ?n muts (tx_view w),
                committed := rows_after ?n muts (tx_view w),
                tx_closed := True\<rparr>"
    unfolding w' w3 w1 b3 h3
    by (simp add: issue_def body_plan_def rows_after_def exec_insert_bulk)
qed

lemma process_updates_Some:
  "process_updates eng n muts b h w = (Some e, b', h', w') \<Longrightarrow>
     \<exists>c i v s. eng i v s = Some c \<and> e = Errorf errUnableToWriteTuples c"
proof (induction muts arbitrary: b h w)
  case Nil
  then show ?case by simp
next
  case (Cons m muts)
  show ?case
  proof (cases "is_close (operation m) \<and> refuses eng w (ExecUpdate (close_stmt n (tuple m))) \<noteq> None")
    case True
    then obtain c where c: "refuses eng w (ExecUpdate (close_stmt n (tuple m))) = Some c" by auto
    then have "\<exists>i v s. eng i v s = Some c" unfolding refuses_def by blast
    then show ?thesis
      using Cons.prems True c by (auto simp: process_updates_Cons)
  next
    case False
    then obtain b1 h1 w1 where "process_updates eng n muts b1 h1 w1 = (Some e, b', h', w')"
      using Cons.prems by (auto simp: process_updates_Cons split: if_splits)
    then show ?thesis by (rule Cons.IH)
  qed
qed

lemma WriteTuples_tx_Inl:
  assumes "WriteTuples_tx eng pre muts w = (Inl e, w')"
  shows "(committed w' = committed w \<and> tx_closed w' = tx_closed w \<and>
          txn_seq w \<le> txn_seq w' \<and> txn_seq w' \<le> Suc (txn_seq w)) \<and>
         (\<exists>T. stops (Suc (txn_seq w)) pre muts T \<and> issued w' = issued w @ T \<and>
              (CreateNewTransaction \<in> set T) = (fst (check_preconditions eng pre w) = None)) \<and>
         ((\<exists>c i v s. eng i v s = Some c \<and> e = Errorf errUnableToWriteTuples c) \<or>
          (\<exists>t \<in> set pre. e = ErrPreconditionFailed t \<and> \<not> stored t (tx_view w) \<and>
             (\<exists>k. 0 < k \<and> k \<le> length pre \<and> w' = w\<lparr>issued := issued w @ queries (take k pre)\<rparr>)))"
    (is "?A \<and> ?B \<and> ?C")
proof -
  let ?n = "Suc (txn_seq w)"
  have BI: ?B
    if "stops ?n pre muts T" "issued w' = issued w @ T"
      "(CreateNewTransaction \<in> set T) = (fst (check_preconditions eng pre w) = None)" for T
    using that by (intro exI[of _ T]) simp
  obtain r1 w1 where c1: "check_preconditions eng pre w = (r1, w1)" by fastforce
  from check_preconditions_shape[OF c1] obtain k1 where k1: "k1 \<le> length pre"
    "w1 = w\<lparr>issued := issued w @ queries (take k1 pre)\<rparr>"
    "r1 = None \<longrightarrow> k1 = length pre" "r1 \<noteq> None \<longrightarrow> 0 < k1" by blast
  show ?thesis
  proof (cases r1)
    case (Some e1)
    then have e: "e = e1" "w' = w1"
      using assms c1 by (simp_all add: WriteTuples_tx_def)
    have A: ?A using e k1 by simp
    have "stops ?n pre muts (queries (take k1 pre))"
      unfolding stops_def using k1 Some by blast
    moreover have "issued w' = issued w @ queries (take k1 pre)" using e k1 by simp
    moreover have "(CreateNewTransaction \<in> set (queries (take k1 pre))) =
        (fst (check_preconditions eng pre w) = None)"
      using c1 Some by auto
    ultimately have B: ?B by (rule BI)
    have "\<exists>k. 0 < k \<and> k \<le> length pre \<and> w' = w\<lparr>issued := issued w @ queries (take k pre)\<rparr>"
      using e k1 Some by blast
    then have C: ?C
      using check_preconditions_result[OF c1] Some e by blast
    show ?thesis using A B C by blast
  next
    case None
    then have w1: "w1 = w\<lparr>issued := issued w @ queries pre\<rparr>" using k1 by simp
    show ?thesis
    proof (cases "refuses eng w1 CreateNewTransaction")
      case (Some c)
      then have e: "e = Errorf errUnableToWriteTuples c" "w' = issue CreateNewTransaction w1"
        using assms c1 None by (simp_all add: WriteTuples_tx_def createNewTransaction_def)
      have A: ?A using e w1 by (simp add: issue_def)
      have "stops ?n pre muts (queries pre @ CreateNewTransaction # closes ?n (take 0 (closed_tuples muts)))"
        unfolding stops_def by blast
      moreover have "issued w' = issued w @ queries pre @ CreateNewTransaction # closes ?n (take 0 (closed_tuples muts))"
        using e w1 by (simp add: issue_def)
      moreover have "(CreateNewTransaction \<in> set (queries pre @ CreateNewTransaction # closes ?n (take 0 (closed_tuples muts)))) =
          (fst (check_preconditions eng pre w) = None)"
        using c1 None by simp
      ultimately have B: ?B by (rule BI)
      have "\<exists>i v s. eng i v s = Some c" using Some unfolding refuses_def by blast
      then have C: ?C using e by blast
      show ?thesis using A B C by blast
    next
      case nr: None
      let ?w2 = "issue CreateNewTransaction (w1\<lparr>txn_seq := Suc (txn_seq w1)\<rparr>)"
      have c2: "createNewTransaction eng w1 = (Inr ?n, ?w2)"
        using nr w1 by (simp add: createNewTransaction_def)
      obtain r3 b3 h3 w3 where c3: "process_updates eng ?n muts writeTuple False ?w2 = (r3, b3, h3, w3)"
        using prod_cases4 by blast
      from process_updates_shape[OF c3] obtain k3 where k3: "k3 \<le> length (closed_tuples muts)"
        "issued w3 = issued ?w2 @ closes ?n (take k3 (closed_tuples muts))"
        "committed w3 = committed ?w2" "txn_seq w3 = txn_seq ?w2" "tx_closed w3 = tx_closed ?w2"
        "r3 = None \<longrightarrow> k3 = length (closed_tuples muts)" by blast
      show ?thesis
      proof (cases r3)
        case (Some e3)
        then have e: "e = e3" "w' = w3"
          using assms c1 None c2 c3 by (simp_all add: WriteTuples_tx_def)
        have A: ?A using e k3 w1 by (simp add: issue_def)
        have "stops ?n pre muts (queries pre @ CreateNewTransaction # closes ?n (take k3 (closed_tuples muts)))"
          unfolding stops_def using k3 by blast
        moreover have "issued w' = issued w @ queries pre @ CreateNewTransaction # closes ?n (take k3 (closed_tuples muts))"
          using e k3 w1 by (simp add: issue_def)
        moreover have "(CreateNewTransaction \<in> set (queries pre @ CreateNewTransaction # closes ?n (take k3 (closed_tuples muts)))) =
            (fst (check_preconditions eng pre w) = None)"
          using c1 None by simp
        ultimately have B: ?B by (rule BI)
        have C: ?C using process_updates_Some[OF c3[unfolded Some]] e by blast
        show ?thesis using A B C by blast
      next
        case n3: None
        from process_updates_None[OF c3[unfolded n3]]
        have b3: "b3 = bulk_insert ?n muts" and h3: "h3 = (inserted_tuples muts \<noteq> [])"
          by (simp_all add: bulk_insert_def writeTuple_def)
        have ts: "h3 \<Longrightarrow> Insert_ToSql b3 = Inr b3"
          by (simp add: b3 h3 Insert_ToSql_def bulk_insert_def)
        have i3: "issued w3 = issued w @ queries pre @ CreateNewTransaction # closes ?n (closed_tuples muts)"
          using k3 n3 w1 by (simp add: issue_def)
        have s3: "committed w3 = committed w" "txn_seq w3 = Suc (txn_seq w)" "tx_closed w3 = tx_closed w"
          using k3 w1 by (simp_all add: issue_def)
        show ?thesis
        proof (cases "h3 \<and> refuses eng w3 (ExecInsert b3) \<noteq> None")
          case True
          then obtain c where c: "refuses eng w3 (ExecInsert b3) = Some c" by auto
          have e: "e = Errorf errUnableToWriteTuples c" "w' = issue (ExecInsert b3) w3"
            using assms c1 None c2 c3 n3 True ts c
            by (simp_all add: WriteTuples_tx_def tx_ExecInsert_def)
          have A: ?A unfolding e issue_def using s3 by simp
          let ?T = "queries pre @ CreateNewTransaction # closes ?n (closed_tuples muts) @
                     [ExecInsert (bulk_insert ?n muts)]"
          have "stops ?n pre muts ?T"
            unfolding stops_def using True h3 by blast
          moreover have "issued w' = issued w @ ?T"
            unfolding e issue_def using i3 b3 by simp
          moreover have "(CreateNewTransaction \<in> set ?T) = (fst (check_preconditions eng pre w) = None)"
            using c1 None by simp
          ultimately have B: ?B by (rule BI)
          have "\<exists>i v s. eng i v s = Some c" using c unfolding refuses_def by blast
          then have C: ?C using e by blast
          show ?thesis using A B C by blast
        next
          case False
          define w4 where "w4 = (if h3 then issue (ExecInsert b3) (w3\<lparr>tx_view := exec_insert b3 (tx_view w3)\<rparr>) else w3)"
          have c4: "(if h3 then (case Insert_ToSql b3 of Inl e \<Rightarrow> (Some e, w3)
                         | Inr sql \<Rightarrow> tx_ExecInsert eng sql w3)
                     else (None, w3)) = (None, w4)"
            using False ts by (auto simp: tx_ExecInsert_def w4_def)
          have i4: "issued w4 @ [Commit] = issued w @ body_plan ?n pre muts"
            using i3 h3 b3 by (simp add: issue_def w4_def body_plan_def)
          have s4: "committed w4 = committed w" "txn_seq w4 = Suc (txn_seq w)" "tx_closed w4 = tx_closed w"
            using s3 by (simp_all add: issue_def w4_def)
          obtain c where c: "refuses eng w4 Commit = Some c"
            using assms c1 None c2 c3 n3 c4
            by (cases "refuses eng w4 Commit") (simp_all add: WriteTuples_tx_def tx_Commit_def)
          have e: "e = Errorf errUnableToWriteTuples c" "w' = issue Commit w4"
            using assms c1 None c2 c3 n3 c4 c
            by (simp_all add: WriteTuples_tx_def tx_Commit_def)
          have A: ?A unfolding e issue_def using s4 by simp
          have "stops ?n pre muts (body_plan ?n pre muts)"
            unfolding stops_def by blast
          moreover have "issued w' = issued w @ body_plan ?n pre muts"
            unfolding e issue_def using i4 by simp
          moreover have "(CreateNewTransaction \<in> set (body_plan ?n pre muts)) =
              (fst (check_preconditions eng pre w) = None)"
            using c1 None by (simp add: body_plan_def)
          ultimately have B: ?B by (rule BI)
          have "\<exists>i v s. eng i v s = Some c" using c unfolding refuses_def by blast
          then have C: ?C using e by blast
          show ?thesis using A B C by blast
        qed
      qed
    qed
  qed
qed

lemma pgDatastore_eta:
  "\<lparr>relation_tuple = relation_tuple pgd, transaction_seq = transaction_seq pgd\<rparr> = (pgd::pgDatastore)"
  by (cases pgd) simp

lemma WriteTuples_Inr:
  assumes "WriteTuples eng pgd pre muts = (Inr rv, pgd', tr)"
  shows "rv = revisionFromTransaction (Suc (transaction_seq pgd)) \<and>
         pgd' = \<lparr>relation_tuple = rows_after (Suc (transaction_seq pgd)) muts (relation_tuple pgd),
                 transaction_seq = Suc (transaction_seq pgd)\<rparr> \<and>
         tr = plan (Suc (transaction_seq pgd)) pre muts @ [Rollback] \<and>
         (\<forall>t \<in> set pre. stored t (relation_tuple pgd))"
proof -
  define w0 where "w0 = issue Begin \<lparr>committed = relation_tuple pgd, txn_seq = transaction_seq pgd,
               tx_view = relation_tuple pgd, tx_closed = False, issued = []\<rparr>"
  have b: "dbpool_Begin eng pgd = (None, w0)"
    using assms by (auto simp: WriteTuples_def dbpool_Begin_def w0_def Let_def split: option.splits)
  obtain w' where t: "WriteTuples_tx eng pre muts w0 = (Inr rv, w')"
    and r: "pgd' = datastore_of (tx_Rollback w')" "tr = issued (tx_Rollback w')"
    using assms b by (auto simp: WriteTuples_def split: prod.splits)
  have w0: "txn_seq w0 = transaction_seq pgd" "tx_view w0 = relation_tuple pgd" "issued w0 = [Begin]"
    by (simp_all add: w0_def issue_def)
  note s = WriteTuples_tx_Inr[OF t, unfolded w0]
  show ?thesis
    using s(1,3) unfolding r s(2)
    by (simp add: tx_Rollback_def issue_def datastore_of_def plan_def)
qed

lemma WriteTuples_Inl:
  assumes "WriteTuples eng pgd pre muts = (Inl e, pgd', tr)"
  shows "(relation_tuple pgd' = relation_tuple pgd \<and>
          transaction_seq pgd \<le> transaction_seq pgd' \<and>
          transaction_seq pgd' \<le> Suc (transaction_seq pgd)) \<and>
         (tr = [Begin] \<or>
          (\<exists>T. stops (Suc (transaction_seq pgd)) pre muts T \<and> tr = Begin # T @ [Rollback])) \<and>
         ((\<exists>c i v s. eng i v s = Some c \<and> e = Errorf errUnableToWriteTuples c) \<or>
          (\<exists>t \<in> set pre. e = ErrPreconditionFailed t \<and> \<not> stored t (relation_tuple pgd) \<and>
             pgd' = pgd \<and>
             (\<exists>k. 0 < k \<and> k \<le> length pre \<and> tr = Begin # queries (take k pre) @ [Rollback])))"
    (is "?A \<and> ?B \<and> ?C")
proof -
  define w0 where "w0 = \<lparr>committed = relation_tuple pgd, txn_seq = transaction_seq pgd,
               tx_view = relation_tuple pgd, tx_closed = False, issued = []\<rparr>"
  show ?thesis
  proof (cases "refuses eng w0 Begin")
    case (Some c)
    then have "e = Errorf errUnableToWriteTuples c" "pgd' = pgd" "tr = [Begin]"
      using assms
      by (auto simp: WriteTuples_def dbpool_Begin_def w0_def Let_def datastore_of_def issue_def
          pgDatastore_eta)
    moreover have "\<exists>i v s. eng i v s = Some c" using Some unfolding refuses_def by blast
    ultimately show ?thesis by simp
  next
    case None
    then have b: "dbpool_Begin eng pgd = (None, issue Begin w0)"
      by (simp add: dbpool_Begin_def w0_def Let_def)
    obtain w' where t: "WriteTuples_tx eng pre muts (issue Begin w0) = (Inl e, w')"
      and r: "pgd' = datastore_of (tx_Rollback w')" "tr = issued (tx_Rollback w')"
      using assms b by (auto simp: WriteTuples_def split: prod.splits)
    have w0: "txn_seq (issue Begin w0) = transaction_seq pgd"
      "tx_view (issue Begin w0) = relation_tuple pgd" "issued (issue Begin w0) = [Begin]"
      "committed (issue Begin w0) = relation_tuple pgd" "tx_closed (issue Begin w0) = False"
      by (simp_all add: w0_def issue_def)
    note s = WriteTuples_tx_Inl[OF t, unfolded w0]
    have A: ?A
      using s unfolding r by (simp add: tx_Rollback_def issue_def datastore_of_def)
    have tr: "tr = issued w' @ [Rollback]"
      unfolding r by (simp add: tx_Rollback_def issue_def)
    from s obtain T where T: "stops (Suc (transaction_seq pgd)) pre muts T" "issued w' = [Begin] @ T"
      by blast
    have B: ?B using T tr by simp
    have C: ?C
    proof (cases "\<exists>c i v s. eng i v s = Some c \<and> e = Errorf errUnableToWriteTuples c")
      case True
      then show ?thesis by blast
    next
      case False
      with s obtain t k where tk: "t \<in> set pre" "e = ErrPreconditionFailed t"
        "\<not> stored t (relation_tuple pgd)" "0 < k" "k \<le> length pre"
        "w' = (issue Begin w0)\<lparr>issued := [Begin] @ queries (take k pre)\<rparr>"
        by blast
      have "pgd' = pgd"
        unfolding r tk
        by (simp add: tx_Rollback_def issue_def datastore_of_def w0_def pgDatastore_eta)
      moreover have "tr = Begin # queries (take k pre) @ [Rollback]"
        unfolding tr tk by simp
      ultimately show ?thesis using tk by blast
    qed
    show ?thesis using A B C by blast
  qed
qed

lemma WriteTuples_passed:
  assumes "WriteTuples eng pgd pre muts = (res, pgd', tr)"
    and "dbpool_Begin eng pgd = (None, w0)"
  shows "(CreateNewTransaction \<in> set tr) = (fst (check_preconditions eng pre w0) = None)"
proof (cases res)
  case (Inr rv)
  obtain w' where t: "WriteTuples_tx eng pre muts w0 = (Inr rv, w')"
    using assms Inr by (auto simp: WriteTuples_def split: prod.splits)
  obtain r1 w1 where c1: "check_preconditions eng pre w0 = (r1, w1)" by fastforce
  have "r1 = None"
    using t c1 by (cases r1) (simp_all add: WriteTuples_tx_def)
  moreover from WriteTuples_Inr[OF assms(1)[unfolded Inr]]
  have "CreateNewTransaction \<in> set tr" by (simp add: plan_def body_plan_def)
  ultimately show ?thesis using c1 by simp
next
  case (Inl e)
  obtain w' where t: "WriteTuples_tx eng pre muts w0 = (Inl e, w')"
      and r: "tr = issued (tx_Rollback w')"
    using assms Inl by (auto simp: WriteTuples_def split: prod.splits)
  have i0: "issued w0 = [Begin]"
    using assms(2) by (auto simp: dbpool_Begin_def Let_def issue_def split: option.splits)
  from WriteTuples_tx_Inl[OF t, THEN conjunct2, THEN conjunct1]
  obtain T where T: "issued w' = issued w0 @ T"
    "(CreateNewTransaction \<in> set T) = (fst (check_preconditions eng pre w0) = None)"
    by (elim exE conjE)
  have "tr = Begin # T @ [Rollback]"
    unfolding r by (simp add: tx_Rollback_def issue_def i0 T(1))
  then show ?thesis using T(2) by simp
qed

lemma WriteTuples_trace:
  assumes "WriteTuples eng pgd pre muts = (res, pgd', tr)"
  shows "tr = [Begin] \<or>
         (\<exists>T. stops (Suc (transaction_seq pgd)) pre muts T \<and> tr = Begin # T @ [Rollback])"
proof (cases res)
  case (Inl e)
  then show ?thesis using WriteTuples_Inl[OF assms[unfolded Inl]] by blast
next
  case (Inr rv)
  from WriteTuples_Inr[OF assms[unfolded Inr]]
  have "tr = Begin # body_plan (Suc (transaction_seq pgd)) pre muts @ [Rollback]"
    by (simp add: plan_def)
  moreover have "stops (Suc (transaction_seq pgd)) pre muts (body_plan (Suc (transaction_seq pgd)) pre muts)"
    unfolding stops_def by blast
  ultimately show ?thesis by blast
qed

lemma process_updates_no_refusal:
  "(\<And>i v s. eng i v s = None) \<Longrightarrow> fst (process_updates eng n muts b h w) = None"
  by (induction muts arbitrary: b h w) (simp_all add: process_updates_Cons refuses_def)

lemma WriteTuples_no_refusal:
  assumes "\<And>i v s. eng i v s = None"
  shows "fst (WriteTuples eng pgd pre muts) =
           (case find (\<lambda>t. \<not> stored t (relation_tuple pgd)) pre of
              Some t \<Rightarrow> Inl (ErrPreconditionFailed t)
            | None \<Rightarrow> Inr (revisionFromTransaction (Suc (transaction_seq pgd))))"
proof -
  define w0 where "w0 = issue Begin \<lparr>committed = relation_tuple pgd, txn_seq = transaction_seq pgd,
               tx_view = relation_tuple pgd, tx_closed = False, issued = []\<rparr>"
  have b: "dbpool_Begin eng pgd = (None, w0)"
    by (simp add: dbpool_Begin_def w0_def Let_def refuses_def assms)
  have v: "tx_view w0 = relation_tuple pgd" "txn_seq w0 = transaction_seq pgd"
    by (simp_all add: w0_def issue_def)
  obtain r1 w1 where c1: "check_preconditions eng pre w0 = (r1, w1)" by fastforce
  have r1: "r1 = (case find (\<lambda>t. \<not> stored t (relation_tuple pgd)) pre of
          None \<Rightarrow> None | Some t \<Rightarrow> Some (ErrPreconditionFailed t))"
    using check_preconditions_no_refusal[of eng pre w0] assms c1 v by simp
  have "fst (WriteTuples_tx eng pre muts w0) =
           (case find (\<lambda>t. \<not> stored t (relation_tuple pgd)) pre of
              Some t \<Rightarrow> Inl (ErrPreconditionFailed t)
            | None \<Rightarrow> Inr (revisionFromTransaction (Suc (transaction_seq pgd))))"
  proof (cases r1)
    case (Some e)
    then show ?thesis
      using c1 r1 by (auto simp: WriteTuples_tx_def split: option.splits)
  next
    case None
    from check_preconditions_shape[OF c1] None
    have s1: "txn_seq w1 = transaction_seq pgd" using v by auto
    let ?n = "Suc (transaction_seq pgd)"
    let ?w2 = "issue CreateNewTransaction (w1\<lparr>txn_seq := Suc (txn_seq w1)\<rparr>)"
    have c2: "createNewTransaction eng w1 = (Inr ?n, ?w2)"
      by (simp add: createNewTransaction_def refuses_def assms s1)
    obtain r3 b3 h3 w3 where c3: "process_updates eng ?n muts writeTuple False ?w2 = (r3, b3, h3, w3)"
      using prod_cases4 by blast
    have r3: "r3 = None"
      using process_updates_no_refusal[of eng ?n muts writeTuple False ?w2] assms c3 by simp
    from process_updates_None[OF c3[unfolded r3]]
    have "h3 \<Longrightarrow> Insert_ToSql b3 = Inr b3"
      by (simp add: Insert_ToSql_def writeTuple_def)
    then show ?thesis
      using c1 None r1 c2 c3 r3
      by (auto simp: WriteTuples_tx_def tx_ExecInsert_def tx_Commit_def refuses_def assms
          split: option.splits)
  qed
  then show ?thesis
    using b by (cases "WriteTuples_tx eng pre muts w0") (simp add: WriteTuples_def)
qed

text \<open>The unfolding that evaluates a call on concrete arguments.\<close>

lemmas run_defs =
  WriteTuples_def WriteTuples_tx_def dbpool_Begin_def refuses_def issue_def
  check_preconditions_Cons process_updates_Cons createNewTransaction_def
  tx_ExecInsert_def tx_Commit_def tx_Rollback_def datastore_of_def
  Insert_ToSql_def Values_def writeTuple_def exec_insert_def exec_update_close
  insert_row_def default_row_def tuple_values_def bulk_insert_def
  inserted_tuples_def closed_tuples_def
  stored_def row_key_def new_row_def live_def closed_row_def live_rows_def
  is_close_def is_insert_def revisionFromTransaction_def
  errUnableToWriteTuples_def no_refusal_def tuple_a_def tuple_b_def

subsection \<open>Consequences for the table and for the order of the statements\<close>

lemma process_updates_skip_mid:
  "\<not> is_close (operation m) \<Longrightarrow> \<not> is_insert (operation m) \<Longrightarrow>
     process_updates eng n (ms1 @ m # ms2) b h w = process_updates eng n (ms1 @ ms2) b h w"
  by (induction ms1 arbitrary: b h w) (simp_all add: process_updates_Cons split: option.splits)

lemma WriteTuples_seq_mono:
  "transaction_seq pgd \<le> transaction_seq (fst (snd (WriteTuples eng pgd pre muts)))"
proof -
  obtain res pgd' tr where r: "WriteTuples eng pgd pre muts = (res, pgd', tr)"
    using prod_cases3 by blast
  show ?thesis
  proof (cases res)
    case (Inl e)
    then show ?thesis using WriteTuples_Inl[OF r[unfolded Inl]] r by simp
  next
    case (Inr rv)
    then show ?thesis using WriteTuples_Inr[OF r[unfolded Inr]] r by simp
  qed
qed

lemma after_calls_mono: "transaction_seq pgd \<le> transaction_seq (after_calls cs pgd)"
proof (induction cs arbitrary: pgd)
  case Nil
  then show ?case by simp
next
  case (Cons c cs)
  obtain eng pre muts where c: "c = (eng, pre, muts)" using prod_cases3 by blast
  show ?case
    using Cons.IH[of "fst (snd (WriteTuples eng pgd pre muts))"] WriteTuples_seq_mono[of pgd eng pre muts]
    by (simp add: c)
qed

lemma close_rows_no_live:
  "live_rows t rows = [] \<Longrightarrow> close_rows n (ts1 @ t # ts2) rows = close_rows n (ts1 @ ts2) rows"
  by (auto simp: close_rows_def live_rows_def filter_empty_conv)

lemma rows_after_delete_no_live:
  assumes "operation m = RelationTupleUpdate_DELETE" "live_rows (tuple m) rows = []"
  shows "rows_after n (ms1 @ m # ms2) rows = rows_after n (ms1 @ ms2) rows"
  using assms close_rows_no_live[of "tuple m" rows n "closed_tuples ms1" "closed_tuples ms2"]
  by (simp add: rows_after_def closed_tuples_def inserted_tuples_def is_close_def is_insert_def)

lemma WriteTuples_succeeds:
  assumes "\<forall>i v s. eng i v s = None" "\<forall>p \<in> set pre. stored p (relation_tuple pgd)"
  shows "WriteTuples eng pgd pre muts =
           (Inr (revisionFromTransaction (Suc (transaction_seq pgd))),
            \<lparr>relation_tuple = rows_after (Suc (transaction_seq pgd)) muts (relation_tuple pgd),
             transaction_seq = Suc (transaction_seq pgd)\<rparr>,
            plan (Suc (transaction_seq pgd)) pre muts @ [Rollback])"
proof -
  have "find (\<lambda>t. \<not> stored t (relation_tuple pgd)) pre = None"
    using assms(2) by (simp add: find_None_iff)
  then have f: "fst (WriteTuples eng pgd pre muts) = Inr (revisionFromTransaction (Suc (transaction_seq pgd)))"
    using WriteTuples_no_refusal[of eng pgd pre muts] assms(1) by simp
  obtain res pgd' tr where r: "WriteTuples eng pgd pre muts = (res, pgd', tr)"
    using prod_cases3 by blast
  with f have r': "WriteTuples eng pgd pre muts =
      (Inr (revisionFromTransaction (Suc (transaction_seq pgd))), pgd', tr)" by simp
  from WriteTuples_Inr[OF r'] show ?thesis using r' by simp
qed

lemma row_key_close [simp]: "row_key (r\<lparr>deleted_transaction := n\<rparr>) = row_key r"
  by (simp add: row_key_def)

lemma live_new_row [simp]: "live (new_row n t)"
  by (simp add: live_def new_row_def)

lemma live_rows_append: "live_rows t (xs @ ys) = live_rows t xs @ live_rows t ys"
  by (simp add: live_rows_def)

lemma live_rows_close_rows:
  "n \<noteq> liveDeletedTxnID \<Longrightarrow> t \<in> set ts \<Longrightarrow> live_rows t (close_rows n ts rows) = []"
  by (auto simp: live_rows_def close_rows_def filter_empty_conv live_def)

lemma live_rows_new_rows:
  "live_rows t (map (new_row n) ts) = replicate (count_list ts t) (new_row n t)"
  by (induction ts) (auto simp: live_rows_def row_key_new_row)

lemma closed_in_close_rows:
  "r \<in> set rows \<Longrightarrow> live r \<Longrightarrow> row_key r \<in> set ts \<Longrightarrow>
     r\<lparr>deleted_transaction := n\<rparr> \<in> set (close_rows n ts rows)"
  by (force simp: close_rows_def)

lemma filter_live_close_rows:
  "n \<noteq> liveDeletedTxnID \<Longrightarrow>
     filter live (close_rows n ts rows) = filter (\<lambda>r. row_key r \<notin> set ts) (filter live rows)"
  by (induction rows) (auto simp: close_rows_def live_def)

lemma filter_live_new_rows: "filter live (map (new_row n) ts) = map (new_row n) ts"
  by (induction ts) simp_all

lemma keys_of_new_rows: "map (row_key \<circ> new_row n) ts = ts"
  by (induction ts) (simp_all add: row_key_new_row)

lemma split_at_unique:
  assumes "P y" "\<forall>a \<in> set A. \<not> P a" "\<forall>c \<in> set C. \<not> P c" "xs @ y # ys = A @ x # C"
  shows "xs = A \<and> y = x \<and> ys = C"
  using assms
proof (induction A arbitrary: xs)
  case Nil
  then show ?case by (cases xs) auto
next
  case (Cons a A)
  show ?case
  proof (cases xs)
    case Nil
    then show ?thesis using Cons.prems by auto
  next
    case (Cons z zs)
    then have "zs @ y # ys = A @ x # C" "z = a" using Cons.prems by auto
    with Cons.IH[of zs] Cons.prems show ?thesis using Cons by auto
  qed
qed

lemma trace_exec:
  assumes "WriteTuples eng pgd pre muts = (res, pgd', tr)"
  shows "(ExecUpdate u \<in> set tr \<longrightarrow>
            CreateNewTransaction \<in> set tr \<and>
            (\<exists>t \<in> set (closed_tuples muts). u = close_stmt (Suc (transaction_seq pgd)) t)) \<and>
         (ExecInsert b \<in> set tr \<longrightarrow>
            CreateNewTransaction \<in> set tr \<and> b = bulk_insert (Suc (transaction_seq pgd)) muts)"
proof -
  let ?n = "Suc (transaction_seq pgd)"
  from WriteTuples_trace[OF assms]
  consider "tr = [Begin]" | T where "stops ?n pre muts T" "tr = Begin # T @ [Rollback]" by blast
  then show ?thesis
  proof cases
    case 1
    then show ?thesis by simp
  next
    case 2
    from 2(1) show ?thesis
      unfolding stops_def 2(2)
      by (elim disjE exE conjE) (auto simp: body_plan_def dest: in_set_takeD)
  qed
qed

lemma trace_insert:
  assumes "WriteTuples eng pgd pre muts = (res, pgd', tr)"
    and "tr = xs @ ExecInsert b # ys"
  shows "inserted_tuples muts \<noteq> [] \<and>
         xs = Begin # queries pre @ CreateNewTransaction #
                closes (Suc (transaction_seq pgd)) (closed_tuples muts) \<and>
         b = bulk_insert (Suc (transaction_seq pgd)) muts \<and>
         (ys = [Rollback] \<or> ys = [Commit, Rollback])"
proof -
  let ?n = "Suc (transaction_seq pgd)"
  let ?A = "Begin # queries pre @ CreateNewTransaction # closes ?n (closed_tuples muts)"
  let ?I = "ExecInsert (bulk_insert ?n muts)"
  have A: "\<forall>a \<in> set ?A. \<not> is_ExecInsert a" by auto
  have key: ?thesis if "inserted_tuples muts \<noteq> []" "tr = ?A @ ?I # C"
    "C = [Rollback] \<or> C = [Commit, Rollback]" for C
  proof -
    have "\<forall>c \<in> set C. \<not> is_ExecInsert c" using that(3) by auto
    moreover have "xs @ ExecInsert b # ys = ?A @ ?I # C" using assms(2) that(2) by simp
    moreover have "is_ExecInsert (ExecInsert b)" by simp
    ultimately have "xs = ?A \<and> ExecInsert b = ?I \<and> ys = C"
      using A by (intro split_at_unique[where P = is_ExecInsert])
    then show ?thesis using that by simp
  qed
  have mem: "ExecInsert b \<in> set tr" using assms(2) by simp
  from WriteTuples_trace[OF assms(1)]
  consider "tr = [Begin]" | T where "stops ?n pre muts T" "tr = Begin # T @ [Rollback]" by blast
  then show ?thesis
  proof cases
    case 1
    then show ?thesis using mem by simp
  next
    case 2
    from 2(1) consider
        (a) k where "T = queries (take k pre)"
      | (b) k where "T = queries pre @ CreateNewTransaction # closes ?n (take k (closed_tuples muts))"
      | (c) "inserted_tuples muts \<noteq> []"
            "T = queries pre @ CreateNewTransaction # closes ?n (closed_tuples muts) @ [?I]"
      | (d) "T = body_plan ?n pre muts"
      unfolding stops_def by blast
    then show ?thesis
    proof cases
      case a
      then show ?thesis using mem 2(2) by auto
    next
      case b
      then show ?thesis using mem 2(2) by auto
    next
      case c
      show ?thesis
        by (rule key[of "[Rollback]"]) (simp_all add: c 2(2))
    next
      case d
      show ?thesis
      proof (cases "inserted_tuples muts = []")
        case True
        then show ?thesis using mem 2(2) d by (auto simp: body_plan_def)
      next
        case False
        show ?thesis
          by (rule key[of "[Commit, Rollback]"]) (simp_all add: False d 2(2) body_plan_def)
      qed
    qed
  qed
qed

lemma filter_updates_prefix:
  "filter is_ExecUpdate (Begin # queries pre @ CreateNewTransaction # closes n ts) = closes n ts"
  by (simp add: filter_map o_def)

lemma trace_allocation:
  assumes "WriteTuples eng pgd pre muts = (res, pgd', tr)"
    and "tr = xs @ CreateNewTransaction # ys"
  shows "xs = Begin # queries pre \<and> CreateNewTransaction \<notin> set ys"
proof -
  let ?n = "Suc (transaction_seq pgd)"
  let ?P = "\<lambda>s. s = CreateNewTransaction"
  have key: ?thesis if "tr = (Begin # queries pre) @ CreateNewTransaction # C"
    "CreateNewTransaction \<notin> set C" for C
  proof -
    have "\<forall>a \<in> set (Begin # queries pre). \<not> ?P a" by auto
    moreover have "\<forall>c \<in> set C. \<not> ?P c" using that(2) by auto
    moreover have "xs @ CreateNewTransaction # ys = (Begin # queries pre) @ CreateNewTransaction # C"
      using assms(2) that(1) by simp
    ultimately have "xs = Begin # queries pre \<and> CreateNewTransaction = CreateNewTransaction \<and> ys = C"
      by (intro split_at_unique[where P = ?P]) simp_all
    then show ?thesis using that(2) by simp
  qed
  have mem: "CreateNewTransaction \<in> set tr" using assms(2) by simp
  from WriteTuples_trace[OF assms(1)]
  consider "tr = [Begin]" | T where "stops ?n pre muts T" "tr = Begin # T @ [Rollback]" by blast
  then show ?thesis
  proof cases
    case 1
    then show ?thesis using mem by simp
  next
    case 2
    from 2(1) consider
        (a) k where "T = queries (take k pre)"
      | (b) k where "T = queries pre @ CreateNewTransaction # closes ?n (take k (closed_tuples muts))"
      | (c) "T = queries pre @ CreateNewTransaction # closes ?n (closed_tuples muts) @
                   [ExecInsert (bulk_insert ?n muts)]"
      | (d) "T = body_plan ?n pre muts"
      unfolding stops_def by blast
    then show ?thesis
    proof cases
      case a
      then show ?thesis using mem 2(2) by auto
    next
      case b
      show ?thesis
        by (rule key[of "closes ?n (take k (closed_tuples muts)) @ [Rollback]"])
           (auto simp: b 2(2))
    next
      case c
      show ?thesis
        by (rule key[of "closes ?n (closed_tuples muts) @
                   [ExecInsert (bulk_insert ?n muts), Rollback]"])
           (auto simp: c 2(2))
    next
      case d
      show ?thesis
        by (rule key[of "closes ?n (closed_tuples muts) @
              (if inserted_tuples muts = [] then [] else [ExecInsert (bulk_insert ?n muts)]) @
              [Commit, Rollback]"])
           (auto simp: d 2(2) body_plan_def)
    qed
  qed
qed

lemma allocation_iff_passed:
  assumes "WriteTuples eng pgd pre muts = (res, pgd', tr)"
  shows "(CreateNewTransaction \<in> set tr) =
           (fst (dbpool_Begin eng pgd) = None \<and>
            fst (check_preconditions eng pre (snd (dbpool_Begin eng pgd))) = None)"
proof (cases "fst (dbpool_Begin eng pgd)")
  case None
  then have b: "dbpool_Begin eng pgd = (None, snd (dbpool_Begin eng pgd))"
    by (metis prod.collapse)
  from WriteTuples_passed[OF assms b] None show ?thesis by simp
next
  case (Some c)
  then obtain w where "dbpool_Begin eng pgd = (Some c, w)" by (metis prod.collapse)
  then have "tr = [Begin]"
    using assms by (auto simp: WriteTuples_def dbpool_Begin_def Let_def issue_def split: option.splits)
  then show ?thesis using Some by simp
qed

lemma passed_stored:
  assumes "fst (dbpool_Begin eng pgd) = None"
    and "fst (check_preconditions eng pre (snd (dbpool_Begin eng pgd))) = None"
  shows "\<forall>t \<in> set pre. stored t (relation_tuple pgd)"
proof -
  have v: "tx_view (snd (dbpool_Begin eng pgd)) = relation_tuple pgd"
    by (simp add: dbpool_Begin_def Let_def issue_def split: option.splits)
  obtain w' where "check_preconditions eng pre (snd (dbpool_Begin eng pgd)) = (None, w')"
    using assms(2) by (metis prod.collapse)
  from check_preconditions_result[OF this] v show ?thesis by simp
qed

lemma WriteTuples_tx_insert_accepted:
  assumes "WriteTuples_tx eng pre muts w = (Inr rv, w')" and "inserted_tuples muts \<noteq> []"
  shows "\<exists>i. eng i (close_rows (Suc (txn_seq w)) (closed_tuples muts) (tx_view w))
              (ExecInsert (bulk_insert (Suc (txn_seq w)) muts)) = None"
proof -
  let ?n = "Suc (txn_seq w)"
  obtain r1 w1 where c1: "check_preconditions eng pre w = (r1, w1)" by fastforce
  have r1: "r1 = None"
    using assms c1 by (cases r1) (simp_all add: WriteTuples_tx_def)
  from check_preconditions_shape[OF c1] r1
  have w1: "w1 = w\<lparr>issued := issued w @ queries pre\<rparr>"
    by auto
  let ?w2 = "issue CreateNewTransaction (w1\<lparr>txn_seq := Suc (txn_seq w1)\<rparr>)"
  have c2: "createNewTransaction eng w1 = (Inr ?n, ?w2)"
    using assms c1 r1 w1
    by (auto simp: WriteTuples_tx_def createNewTransaction_def split: option.splits)
  obtain r3 b3 h3 w3 where c3: "process_updates eng ?n muts writeTuple False ?w2 = (r3, b3, h3, w3)"
    using prod_cases4 by blast
  have r3: "r3 = None"
    using assms c1 r1 c2 c3 by (cases r3) (simp_all add: WriteTuples_tx_def)
  from process_updates_None[OF c3[unfolded r3]]
  have v3: "tx_view w3 = close_rows ?n (closed_tuples muts) (tx_view w)"
    and b3: "b3 = bulk_insert ?n muts"
    and h3: "h3"
    using assms(2) w1 by (simp_all add: bulk_insert_def writeTuple_def issue_def)
  have ts: "Insert_ToSql b3 = Inr b3"
    using assms(2) by (simp add: b3 Insert_ToSql_def bulk_insert_def)
  have "refuses eng w3 (ExecInsert b3) = None"
    using assms(1) c1 r1 c2 c3 r3 h3 ts
    by (cases "refuses eng w3 (ExecInsert b3)") (simp_all add: WriteTuples_tx_def tx_ExecInsert_def)
  then show ?thesis
    unfolding refuses_def v3 b3 by blast
qed

lemma WriteTuples_insert_accepted:
  assumes "WriteTuples eng pgd pre muts = (Inr rv, pgd', tr)" and "inserted_tuples muts \<noteq> []"
  shows "\<exists>i. eng i (close_rows (Suc (transaction_seq pgd)) (closed_tuples muts) (relation_tuple pgd))
              (ExecInsert (bulk_insert (Suc (transaction_seq pgd)) muts)) = None"
proof -
  define w0 where "w0 = issue Begin \<lparr>committed = relation_tuple pgd, txn_seq = transaction_seq pgd,
               tx_view = relation_tuple pgd, tx_closed = False, issued = []\<rparr>"
  have b: "dbpool_Begin eng pgd = (None, w0)"
    using assms by (auto simp: WriteTuples_def dbpool_Begin_def w0_def Let_def split: option.splits)
  obtain w' where t: "WriteTuples_tx eng pre muts w0 = (Inr rv, w')"
    using assms b by (auto simp: WriteTuples_def split: prod.splits)
  have w0: "txn_seq w0 = transaction_seq pgd" "tx_view w0 = relation_tuple pgd"
    by (simp_all add: w0_def issue_def)
  from WriteTuples_tx_insert_accepted[OF t assms(2)] show ?thesis
    unfolding w0 .
qed

lemma close_rows_sentinel: "close_rows liveDeletedTxnID ts rows = rows"
  by (induction rows) (auto simp: close_rows_def live_def)

lemma one_live_per_key_close_rows:
  assumes "one_live_per_key rows"
  shows "one_live_per_key (close_rows n ts rows)"
proof (cases "n = liveDeletedTxnID")
  case True
  then show ?thesis using assms by (simp add: close_rows_sentinel)
next
  case False
  show ?thesis
    using assms unfolding one_live_per_key_def filter_live_close_rows[OF False]
    by (rule distinct_map_filter)
qed

lemma enforced_rows_after:
  assumes "WriteTuples eng pgd pre muts = (Inr rv, pgd', tr)"
    and "enforces_one_live_per_key eng"
    and "one_live_per_key (relation_tuple pgd) \<or> inserted_tuples muts \<noteq> []"
  shows "one_live_per_key (relation_tuple pgd')"
proof -
  let ?n = "Suc (transaction_seq pgd)"
  have rows: "relation_tuple pgd' = rows_after ?n muts (relation_tuple pgd)"
    using WriteTuples_Inr[OF assms(1)] by simp
  show ?thesis
  proof (cases "inserted_tuples muts = []")
    case True
    then show ?thesis
      using assms(3) by (simp add: rows rows_after_def one_live_per_key_close_rows)
  next
    case False
    from WriteTuples_insert_accepted[OF assms(1) False] assms(2)
    have "one_live_per_key (exec_insert (bulk_insert ?n muts)
            (close_rows ?n (closed_tuples muts) (relation_tuple pgd)))"
      unfolding enforces_one_live_per_key_def by blast
    then show ?thesis by (simp add: rows rows_after_def exec_insert_bulk)
  qed
qed

lemma filter_same_key:
  "distinct (map f xs) \<Longrightarrow> x \<in> set xs \<Longrightarrow> filter (\<lambda>y. f y = f x) xs = [x]"
proof (induction xs)
  case Nil
  then show ?case by simp
next
  case (Cons a xs)
  show ?case
  proof (cases "a = x")
    case True
    then have "f x \<notin> f ` set xs" using Cons.prems by simp
    then have "filter (\<lambda>y. f y = f x) xs = []"
      by (force simp: filter_empty_conv image_iff)
    then show ?thesis using True by simp
  next
    case False
    then have "x \<in> set xs" using Cons.prems by simp
    moreover have "f a \<noteq> f x" using Cons.prems \<open>x \<in> set xs\<close> by auto
    ultimately show ?thesis using Cons by simp
  qed
qed

lemma one_live_row:
  assumes "one_live_per_key rows" "r \<in> set rows" "live r"
  shows "live_rows (row_key r) rows = [r]"
proof -
  have "live_rows (row_key r) rows = filter (\<lambda>y. row_key y = row_key r) (filter live rows)"
    by (simp add: live_rows_def conj_commute)
  also have "\<dots> = [r]"
    using assms by (intro filter_same_key) (simp_all add: one_live_per_key_def)
  finally show ?thesis .
qed

lemma unique_living_enforces: "enforces_one_live_per_key unique_living"
  by (simp add: enforces_one_live_per_key_def unique_living_def)

lemma close_rows_member:
  "r \<in> set rows \<Longrightarrow>
     (if live r \<and> row_key r \<in> set ts then r\<lparr>deleted_transaction := n\<rparr> else r)
       \<in> set (close_rows n ts rows)"
  by (force simp: close_rows_def)

lemma live_keys_rows_after:
  "map row_key (filter live (rows_after n muts rows)) =
     map row_key (filter live (close_rows n (closed_tuples muts) rows)) @ inserted_tuples muts"
  by (simp add: rows_after_def filter_live_new_rows keys_of_new_rows)

lemma enforced_insert_closes:
  assumes "WriteTuples eng pgd pre muts = (Inr rv, pgd', tr)"
    and "enforces_one_live_per_key eng"
    and "t \<in> set (inserted_tuples muts)"
  shows "live_rows t (relation_tuple pgd') = [new_row (Suc (transaction_seq pgd)) t]"
    and "distinct (inserted_tuples muts)"
    and "\<forall>r \<in> set (live_rows t (relation_tuple pgd)).
           t \<in> set (closed_tuples muts) \<and>
           r\<lparr>deleted_transaction := Suc (transaction_seq pgd)\<rparr> \<in> set (relation_tuple pgd') \<and>
           \<not> live (r\<lparr>deleted_transaction := Suc (transaction_seq pgd)\<rparr>)"
proof -
  let ?n = "Suc (transaction_seq pgd)"
  let ?C = "closed_tuples muts"
  let ?rows = "relation_tuple pgd"
  have ne: "inserted_tuples muts \<noteq> []" using assms(3) by auto
  have rows: "relation_tuple pgd' = rows_after ?n muts ?rows"
    using WriteTuples_Inr[OF assms(1)] by simp
  have one: "one_live_per_key (relation_tuple pgd')"
    using enforced_rows_after[OF assms(1,2)] ne by blast
  have "new_row ?n t \<in> set (relation_tuple pgd')"
    using assms(3) by (simp add: rows rows_after_def)
  with one have "live_rows (row_key (new_row ?n t)) (relation_tuple pgd') = [new_row ?n t]"
    by (intro one_live_row) simp_all
  then show "live_rows t (relation_tuple pgd') = [new_row ?n t]"
    by (simp add: row_key_new_row)
  from one have d: "distinct (map row_key (filter live (close_rows ?n ?C ?rows)) @ inserted_tuples muts)"
    unfolding one_live_per_key_def rows live_keys_rows_after .
  then show "distinct (inserted_tuples muts)" by simp
  from d have disj: "\<And>x. x \<in> set (close_rows ?n ?C ?rows) \<Longrightarrow> live x \<Longrightarrow> row_key x \<noteq> t"
    using assms(3) by auto
  show "\<forall>r \<in> set (live_rows t ?rows).
           t \<in> set ?C \<and> r\<lparr>deleted_transaction := ?n\<rparr> \<in> set (relation_tuple pgd') \<and>
           \<not> live (r\<lparr>deleted_transaction := ?n\<rparr>)"
  proof
    fix r assume "r \<in> set (live_rows t ?rows)"
    then have r: "r \<in> set ?rows" "live r" "row_key r = t" by (auto simp: live_rows_def)
    note m = close_rows_member[OF r(1), of ?C ?n]
    have c: "t \<in> set ?C"
    proof (rule ccontr)
      assume "t \<notin> set ?C"
      then have "r \<in> set (close_rows ?n ?C ?rows)" using m r by simp
      from disj[OF this r(2)] r(3) show False by simp
    qed
    then have m': "r\<lparr>deleted_transaction := ?n\<rparr> \<in> set (close_rows ?n ?C ?rows)"
      using m r by simp
    have "\<not> live (r\<lparr>deleted_transaction := ?n\<rparr>)"
      using disj[OF m'] r(3) by auto
    moreover have "r\<lparr>deleted_transaction := ?n\<rparr> \<in> set (relation_tuple pgd')"
      using m' by (simp add: rows rows_after_def)
    ultimately show "t \<in> set ?C \<and> r\<lparr>deleted_transaction := ?n\<rparr> \<in> set (relation_tuple pgd') \<and>
           \<not> live (r\<lparr>deleted_transaction := ?n\<rparr>)" using c by simp
  qed
qed

lemma distinct_inserts_keep_one_live_per_key:
  assumes "WriteTuples eng pgd pre muts = (Inr rv, pgd', tr)"
    and "one_live_per_key (relation_tuple pgd)"
    and "distinct (inserted_tuples muts)"
    and "\<forall>t \<in> set (inserted_tuples muts).
           t \<in> set (closed_tuples muts) \<or> live_rows t (relation_tuple pgd) = []"
    and "Suc (transaction_seq pgd) \<noteq> liveDeletedTxnID"
  shows "one_live_per_key (relation_tuple pgd')"
proof -
  let ?n = "Suc (transaction_seq pgd)"
  let ?rows = "relation_tuple pgd"
  let ?kept = "filter (\<lambda>r. row_key r \<notin> set (closed_tuples muts)) (filter live ?rows)"
  have rows: "relation_tuple pgd' = rows_after ?n muts ?rows"
    using WriteTuples_Inr[OF assms(1)] by simp
  have live': "map row_key (filter live (relation_tuple pgd')) = map row_key ?kept @ inserted_tuples muts"
    unfolding rows live_keys_rows_after
    by (simp add: filter_live_close_rows[OF assms(5)])
  have d1: "distinct (map row_key ?kept)"
    using assms(2) unfolding one_live_per_key_def by (rule distinct_map_filter)
  have d2: "set (map row_key ?kept) \<inter> set (inserted_tuples muts) = {}"
  proof (rule ccontr)
    assume "set (map row_key ?kept) \<inter> set (inserted_tuples muts) \<noteq> {}"
    then obtain r where r: "r \<in> set ?rows" "live r" "row_key r \<notin> set (closed_tuples muts)"
      "row_key r \<in> set (inserted_tuples muts)" by auto
    with assms(4) have "live_rows (row_key r) ?rows = []" by blast
    then show False using r by (auto simp: live_rows_def filter_empty_conv)
  qed
  show ?thesis
    unfolding one_live_per_key_def live' using d1 d2 assms(3) by simp
qed

section \<open>Properties of WriteTuples\<close>

subsection \<open>C1: a precondition and soft-deleted rows\<close>

text \<open>
  C1 says that a precondition tuple fails the call with PreconditionFailed exactly when
  no live row exists for its key, and that a tuple whose only stored rows are
  soft-deleted must fail it. The existence query built from \<open>queryTupleExists\<close> and
  \<open>exactTupleClause\<close> compares the six key columns and nothing else, so a closed row
  answers it. Here the only row for the key was created at 1 and closed at 2; no live
  row exists, and the call passes the precondition, allocates revision 3 and commits.
\<close>

theorem soft_deleted_row_satisfies_precondition:
  "live_rows tuple_a [closed_row 1 2 tuple_a] = [] \<and>
   WriteTuples no_refusal \<lparr>relation_tuple = [closed_row 1 2 tuple_a], transaction_seq = 2\<rparr>
       [tuple_a] [] =
     (Inr 3, \<lparr>relation_tuple = [closed_row 1 2 tuple_a], transaction_seq = 3\<rparr>,
      [Begin, QueryRow (precondition_query tuple_a), CreateNewTransaction, Commit, Rollback])"
  by (simp add: run_defs liveDeletedTxnID_def)

subsection \<open>C2: a failed precondition changes nothing\<close>

text \<open>
  C2: when a call fails with PreconditionFailed, the datastore after the call is the
  datastore before it (the table and the identifier sequence: no revision was
  allocated), no update, insert or commit was issued, and the last statement of the
  call is the rollback.
\<close>

theorem precondition_failure_changes_nothing:
  assumes "WriteTuples eng pgd pre muts = (Inl (ErrPreconditionFailed t), pgd', tr)"
  shows "pgd' = pgd \<and>
         CreateNewTransaction \<notin> set tr \<and>
         (\<forall>s \<in> set tr. \<not> is_ExecUpdate s \<and> \<not> is_ExecInsert s) \<and>
         Commit \<notin> set tr \<and>
         last tr = Rollback"
proof -
  from WriteTuples_Inl[OF assms]
  obtain k where "pgd' = pgd" "tr = Begin # queries (take k pre) @ [Rollback]"
    by auto
  then show ?thesis by auto
qed

theorem precondition_failure_changes_nothing_witness:
  "WriteTuples no_refusal \<lparr>relation_tuple = [], transaction_seq = 0\<rparr> [tuple_a]
       [\<lparr>operation = RelationTupleUpdate_CREATE, tuple = tuple_b\<rparr>] =
     (Inl (ErrPreconditionFailed tuple_a), \<lparr>relation_tuple = [], transaction_seq = 0\<rparr>,
      [Begin, QueryRow (precondition_query tuple_a), Rollback]) \<and>
   CreateNewTransaction \<notin> set [Begin, QueryRow (precondition_query tuple_a), Rollback] \<and>
   last [Begin, QueryRow (precondition_query tuple_a), Rollback] = Rollback"
proof -
  have run: "WriteTuples no_refusal \<lparr>relation_tuple = [], transaction_seq = 0\<rparr> [tuple_a]
       [\<lparr>operation = RelationTupleUpdate_CREATE, tuple = tuple_b\<rparr>] =
     (Inl (ErrPreconditionFailed tuple_a), \<lparr>relation_tuple = [], transaction_seq = 0\<rparr>,
      [Begin, QueryRow (precondition_query tuple_a), Rollback])"
    by (simp add: run_defs)
  show ?thesis
    using run precondition_failure_changes_nothing[OF run] by simp
qed

subsection \<open>C3: closes before the one batched insert\<close>

text \<open>
  C3: in every call, wherever the batched insert stands among the statements issued,
  the updates before it are exactly the close actions of all DELETE and TOUCH
  mutations, in the order of the mutations; no update and no other insert follows or
  precedes it; and its rows are the rows staged by all CREATE and TOUCH mutations, at
  least one. A call whose mutations stage no row issues no insert. A successful call
  has issued every close action, and one insert exactly when a row was staged.
\<close>

theorem closes_precede_the_single_insert:
  assumes "WriteTuples eng pgd pre muts = (res, pgd', tr)"
  shows "(\<forall>xs b ys. tr = xs @ ExecInsert b # ys \<longrightarrow>
            filter is_ExecUpdate xs = closes (Suc (transaction_seq pgd)) (closed_tuples muts) \<and>
            (\<forall>s \<in> set ys. \<not> is_ExecUpdate s) \<and>
            (\<forall>s \<in> set (xs @ ys). \<not> is_ExecInsert s) \<and>
            insert_values b = map (tuple_values (Suc (transaction_seq pgd))) (inserted_tuples muts) \<and>
            inserted_tuples muts \<noteq> []) \<and>
         (inserted_tuples muts = [] \<longrightarrow> (\<forall>s \<in> set tr. \<not> is_ExecInsert s)) \<and>
         (\<forall>rv. res = Inr rv \<longrightarrow>
            filter is_ExecUpdate tr = closes (Suc (transaction_seq pgd)) (closed_tuples muts) \<and>
            filter is_ExecInsert tr =
              (if inserted_tuples muts = [] then []
               else [ExecInsert (bulk_insert (Suc (transaction_seq pgd)) muts)]))"
proof -
  let ?n = "Suc (transaction_seq pgd)"
  have 1: "filter is_ExecUpdate xs = closes ?n (closed_tuples muts) \<and>
            (\<forall>s \<in> set ys. \<not> is_ExecUpdate s) \<and>
            (\<forall>s \<in> set (xs @ ys). \<not> is_ExecInsert s) \<and>
            insert_values b = map (tuple_values ?n) (inserted_tuples muts) \<and>
            inserted_tuples muts \<noteq> []"
    if "tr = xs @ ExecInsert b # ys" for xs b ys
  proof -
    note t = trace_insert[OF assms that]
    have "filter is_ExecUpdate xs = closes ?n (closed_tuples muts)"
      using t filter_updates_prefix[of pre ?n "closed_tuples muts"] by simp
    moreover have "\<forall>s \<in> set ys. \<not> is_ExecUpdate s \<and> \<not> is_ExecInsert s" using t by auto
    moreover have "\<forall>s \<in> set xs. \<not> is_ExecInsert s" using t by auto
    moreover have "insert_values b = map (tuple_values ?n) (inserted_tuples muts)"
      using t by (simp add: bulk_insert_def)
    ultimately show ?thesis using t by auto
  qed
  have 2: "\<forall>s \<in> set tr. \<not> is_ExecInsert s" if e: "inserted_tuples muts = []"
  proof
    fix s assume s: "s \<in> set tr"
    show "\<not> is_ExecInsert s"
    proof
      assume "is_ExecInsert s"
      then obtain b where "s = ExecInsert b" by (cases s) auto
      with s obtain xs ys where "tr = xs @ ExecInsert b # ys" by (auto dest: split_list)
      from trace_insert[OF assms this] e show False by simp
    qed
  qed
  have 3: "filter is_ExecUpdate tr = closes ?n (closed_tuples muts) \<and>
            filter is_ExecInsert tr =
              (if inserted_tuples muts = [] then [] else [ExecInsert (bulk_insert ?n muts)])"
    if "res = Inr rv" for rv
  proof -
    have "tr = plan ?n pre muts @ [Rollback]"
      using WriteTuples_Inr[OF assms[unfolded that]] by simp
    then show ?thesis
      by (simp add: plan_def body_plan_def filter_map o_def)
  qed
  show ?thesis using 1 2 3 by blast
qed

theorem closes_precede_the_single_insert_witness:
  "WriteTuples no_refusal \<lparr>relation_tuple = [new_row 1 tuple_a], transaction_seq = 2\<rparr> []
       [\<lparr>operation = RelationTupleUpdate_CREATE, tuple = tuple_b\<rparr>,
        \<lparr>operation = RelationTupleUpdate_TOUCH, tuple = tuple_a\<rparr>] =
     (Inr 3,
      \<lparr>relation_tuple = [closed_row 1 3 tuple_a, new_row 3 tuple_b, new_row 3 tuple_a],
       transaction_seq = 3\<rparr>,
      [Begin, CreateNewTransaction, ExecUpdate (close_stmt 3 tuple_a)] @
      ExecInsert (bulk_insert 3 [\<lparr>operation = RelationTupleUpdate_CREATE, tuple = tuple_b\<rparr>,
        \<lparr>operation = RelationTupleUpdate_TOUCH, tuple = tuple_a\<rparr>]) #
      [Commit, Rollback]) \<and>
   filter is_ExecUpdate [Begin, CreateNewTransaction, ExecUpdate (close_stmt 3 tuple_a)] =
     [ExecUpdate (close_stmt 3 tuple_a)] \<and>
   insert_values (bulk_insert 3 [\<lparr>operation = RelationTupleUpdate_CREATE, tuple = tuple_b\<rparr>,
        \<lparr>operation = RelationTupleUpdate_TOUCH, tuple = tuple_a\<rparr>]) =
     [tuple_values 3 tuple_b, tuple_values 3 tuple_a]"
proof -
  let ?pgd = "\<lparr>relation_tuple = [new_row 1 tuple_a], transaction_seq = 2\<rparr>"
  let ?muts = "[\<lparr>operation = RelationTupleUpdate_CREATE, tuple = tuple_b\<rparr>,
        \<lparr>operation = RelationTupleUpdate_TOUCH, tuple = tuple_a\<rparr>]"
  let ?xs = "[Begin, CreateNewTransaction, ExecUpdate (close_stmt 3 tuple_a)]"
  have run: "WriteTuples no_refusal ?pgd [] ?muts =
     (Inr 3,
      \<lparr>relation_tuple = [closed_row 1 3 tuple_a, new_row 3 tuple_b, new_row 3 tuple_a],
       transaction_seq = 3\<rparr>,
      ?xs @ ExecInsert (bulk_insert 3 ?muts) # [Commit, Rollback])"
    by (simp add: run_defs liveDeletedTxnID_def)
  have c: "closed_tuples ?muts = [tuple_a]" "inserted_tuples ?muts = [tuple_b, tuple_a]"
    by (simp_all add: closed_tuples_def inserted_tuples_def is_close_def is_insert_def)
  from closes_precede_the_single_insert[OF run, THEN conjunct1, rule_format,
      of ?xs "bulk_insert 3 ?muts" "[Commit, Rollback]"] run
  show ?thesis by (simp add: c)
qed

subsection \<open>C4: TOUCH\<close>

text \<open>
  C4: in a successful call, a TOUCH issues the closing update for its key and has its
  row in the batched insert, both stamped with the identifier the call allocated,
  whose revision the call returns, and every row of the key that was live before is in
  the table with that identifier as its closing stamp. On a storage engine that
  enforces the key constraint (and, on any engine, when no other CREATE or TOUCH of
  the call has the key and the identifier is not the live sentinel) the table after
  the call holds exactly one live row for the key, the row created at that identifier,
  and the rows of the key that were live before are no longer live.
\<close>

theorem touch_leaves_one_live_row:
  assumes "WriteTuples eng pgd pre muts = (Inr rv, pgd', tr)"
    and "m \<in> set muts" and "operation m = RelationTupleUpdate_TOUCH"
  shows "ExecUpdate (close_stmt (Suc (transaction_seq pgd)) (tuple m)) \<in> set tr \<and>
         ExecInsert (bulk_insert (Suc (transaction_seq pgd)) muts) \<in> set tr \<and>
         tuple_values (Suc (transaction_seq pgd)) (tuple m) \<in>
           set (insert_values (bulk_insert (Suc (transaction_seq pgd)) muts)) \<and>
         rv = revisionFromTransaction (Suc (transaction_seq pgd)) \<and>
         (\<forall>r \<in> set (live_rows (tuple m) (relation_tuple pgd)).
            r\<lparr>deleted_transaction := Suc (transaction_seq pgd)\<rparr> \<in> set (relation_tuple pgd')) \<and>
         (enforces_one_live_per_key eng \<or>
          count_list (inserted_tuples muts) (tuple m) = 1 \<and>
          Suc (transaction_seq pgd) \<noteq> liveDeletedTxnID \<longrightarrow>
            live_rows (tuple m) (relation_tuple pgd') =
              [new_row (Suc (transaction_seq pgd)) (tuple m)] \<and>
            (\<forall>r \<in> set (live_rows (tuple m) (relation_tuple pgd)).
               \<not> live (r\<lparr>deleted_transaction := Suc (transaction_seq pgd)\<rparr>)))"
proof -
  let ?n = "Suc (transaction_seq pgd)"
  let ?t = "tuple m"
  note s = WriteTuples_Inr[OF assms(1)]
  have c: "?t \<in> set (closed_tuples muts)"
    using assms(2,3) by (force simp: closed_tuples_def is_close_def)
  have i: "?t \<in> set (inserted_tuples muts)"
    using assms(2,3) by (force simp: inserted_tuples_def is_insert_def)
  have tr: "tr = plan ?n pre muts @ [Rollback]" using s by simp
  have rows: "relation_tuple pgd' = rows_after ?n muts (relation_tuple pgd)" using s by simp
  have 1: "ExecUpdate (close_stmt ?n ?t) \<in> set tr"
    using c by (simp add: tr plan_def body_plan_def)
  have 2: "ExecInsert (bulk_insert ?n muts) \<in> set tr"
    using i by (auto simp: tr plan_def body_plan_def)
  have 3: "tuple_values ?n ?t \<in> set (insert_values (bulk_insert ?n muts))"
    using i by (simp add: bulk_insert_def)
  have 4: "rv = revisionFromTransaction ?n" using s by simp
  have 5: "\<forall>r \<in> set (live_rows ?t (relation_tuple pgd)).
            r\<lparr>deleted_transaction := ?n\<rparr> \<in> set (relation_tuple pgd')"
    unfolding rows rows_after_def using c
    by (auto simp: live_rows_def intro: closed_in_close_rows)
  have 6: "live_rows ?t (relation_tuple pgd') = [new_row ?n ?t] \<and>
            (\<forall>r \<in> set (live_rows ?t (relation_tuple pgd)). \<not> live (r\<lparr>deleted_transaction := ?n\<rparr>))"
    if h: "enforces_one_live_per_key eng \<or>
          count_list (inserted_tuples muts) ?t = 1 \<and> ?n \<noteq> liveDeletedTxnID"
  proof (cases "enforces_one_live_per_key eng")
    case True
    from enforced_insert_closes(1,3)[OF assms(1) True i] show ?thesis by blast
  next
    case False
    with h have h': "count_list (inserted_tuples muts) ?t = 1" "?n \<noteq> liveDeletedTxnID"
      by auto
    have "live_rows ?t (relation_tuple pgd') = [new_row ?n ?t]"
      unfolding rows rows_after_def live_rows_append
      by (simp add: live_rows_close_rows[OF h'(2) c] live_rows_new_rows h'(1))
    moreover have "\<not> live (r\<lparr>deleted_transaction := ?n\<rparr>)" for r
      using h'(2) by (simp add: live_def)
    ultimately show ?thesis by blast
  qed
  show ?thesis using 1 2 3 4 5 6 by blast
qed

theorem touch_leaves_one_live_row_witness:
  "enforces_one_live_per_key unique_living \<and>
   WriteTuples unique_living \<lparr>relation_tuple = [new_row 1 tuple_a], transaction_seq = 2\<rparr> [tuple_a]
       [\<lparr>operation = RelationTupleUpdate_TOUCH, tuple = tuple_a\<rparr>,
        \<lparr>operation = RelationTupleUpdate_CREATE, tuple = tuple_b\<rparr>] =
     (Inr 3,
      \<lparr>relation_tuple = [closed_row 1 3 tuple_a, new_row 3 tuple_a, new_row 3 tuple_b],
       transaction_seq = 3\<rparr>,
      [Begin, QueryRow (precondition_query tuple_a), CreateNewTransaction,
       ExecUpdate (close_stmt 3 tuple_a),
       ExecInsert (writeTuple\<lparr>insert_values := [tuple_values 3 tuple_a, tuple_values 3 tuple_b]\<rparr>),
       Commit, Rollback]) \<and>
   live_rows tuple_a [closed_row 1 3 tuple_a, new_row 3 tuple_a, new_row 3 tuple_b] =
     [new_row 3 tuple_a]"
proof -
  let ?pgd = "\<lparr>relation_tuple = [new_row 1 tuple_a], transaction_seq = 2\<rparr>"
  let ?m = "\<lparr>operation = RelationTupleUpdate_TOUCH, tuple = tuple_a\<rparr>"
  let ?muts = "[?m, \<lparr>operation = RelationTupleUpdate_CREATE, tuple = tuple_b\<rparr>]"
  have run: "WriteTuples unique_living ?pgd [tuple_a] ?muts =
     (Inr 3,
      \<lparr>relation_tuple = [closed_row 1 3 tuple_a, new_row 3 tuple_a, new_row 3 tuple_b],
       transaction_seq = 3\<rparr>,
      [Begin, QueryRow (precondition_query tuple_a), CreateNewTransaction,
       ExecUpdate (close_stmt 3 tuple_a),
       ExecInsert (writeTuple\<lparr>insert_values := [tuple_values 3 tuple_a, tuple_values 3 tuple_b]\<rparr>),
       Commit, Rollback])"
    by (simp add: run_defs unique_living_def one_live_per_key_def liveDeletedTxnID_def
        del: distinct_append filter_append map_append set_filter set_append set_map)
  have h2: "?m \<in> set ?muts" by simp
  have h3: "operation ?m = RelationTupleUpdate_TOUCH" by simp
  from touch_leaves_one_live_row[OF run h2 h3] unique_living_enforces run
  show ?thesis by simp
qed

text \<open>
  Two TOUCH mutations of one key in one call: the engine that enforces the key
  constraint refuses the insert and the call rolls back; an engine with no key
  constraint would accept it and keep both rows.
\<close>

lemma two_touches_refused:
  "WriteTuples unique_living \<lparr>relation_tuple = [new_row 1 tuple_a], transaction_seq = 2\<rparr> []
       [\<lparr>operation = RelationTupleUpdate_TOUCH, tuple = tuple_a\<rparr>,
        \<lparr>operation = RelationTupleUpdate_TOUCH, tuple = tuple_a\<rparr>] =
     (Inl (Errorf errUnableToWriteTuples ''duplicate key value violates unique constraint''),
      \<lparr>relation_tuple = [new_row 1 tuple_a], transaction_seq = 3\<rparr>,
      [Begin, CreateNewTransaction,
       ExecUpdate (close_stmt 3 tuple_a), ExecUpdate (close_stmt 3 tuple_a),
       ExecInsert (writeTuple\<lparr>insert_values := [tuple_values 3 tuple_a, tuple_values 3 tuple_a]\<rparr>),
       Rollback])"
  by (simp add: run_defs unique_living_def one_live_per_key_def liveDeletedTxnID_def)

lemma two_touches_without_key_constraint:
  "WriteTuples no_refusal \<lparr>relation_tuple = [new_row 1 tuple_a], transaction_seq = 2\<rparr> []
       [\<lparr>operation = RelationTupleUpdate_TOUCH, tuple = tuple_a\<rparr>,
        \<lparr>operation = RelationTupleUpdate_TOUCH, tuple = tuple_a\<rparr>] =
     (Inr 3,
      \<lparr>relation_tuple = [closed_row 1 3 tuple_a, new_row 3 tuple_a, new_row 3 tuple_a],
       transaction_seq = 3\<rparr>,
      [Begin, CreateNewTransaction,
       ExecUpdate (close_stmt 3 tuple_a), ExecUpdate (close_stmt 3 tuple_a),
       ExecInsert (writeTuple\<lparr>insert_values := [tuple_values 3 tuple_a, tuple_values 3 tuple_a]\<rparr>),
       Commit, Rollback]) \<and>
   live_rows tuple_a [closed_row 1 3 tuple_a, new_row 3 tuple_a, new_row 3 tuple_a] =
     [new_row 3 tuple_a, new_row 3 tuple_a]"
  by (simp add: run_defs liveDeletedTxnID_def)

subsection \<open>C5: one revision for a call\<close>

text \<open>
  C5: the allocation is issued exactly when the transaction has begun and every
  precondition check has passed. Where it stands among the statements issued, the
  statements before it are \<open>Begin\<close> and the queries of all the preconditions, each
  answered by a stored row, and none of them an update or an insert; it does not occur
  again after. Every update issued sets the closing stamp to the allocated identifier,
  every row of an insert issued is created at it, and a successful call returns its
  revision and leaves a table whose new stamps are all this one identifier.
\<close>

theorem revision_allocated_once_and_shared:
  assumes "WriteTuples eng pgd pre muts = (res, pgd', tr)"
  shows "((CreateNewTransaction \<in> set tr) =
            (fst (dbpool_Begin eng pgd) = None \<and>
             fst (check_preconditions eng pre (snd (dbpool_Begin eng pgd))) = None)) \<and>
         (\<forall>xs ys. tr = xs @ CreateNewTransaction # ys \<longrightarrow>
            xs = Begin # queries pre \<and>
            (\<forall>t \<in> set pre. stored t (relation_tuple pgd)) \<and>
            (\<forall>s \<in> set xs. \<not> is_ExecUpdate s \<and> \<not> is_ExecInsert s) \<and>
            CreateNewTransaction \<notin> set ys) \<and>
         (\<forall>u. ExecUpdate u \<in> set tr \<longrightarrow>
            CreateNewTransaction \<in> set tr \<and>
            update_set u = [(colDeletedTxn, NumArg (Suc (transaction_seq pgd)))]) \<and>
         (\<forall>b. ExecInsert b \<in> set tr \<longrightarrow>
            CreateNewTransaction \<in> set tr \<and>
            (\<forall>r \<in> set (exec_insert b []). created_transaction r = Suc (transaction_seq pgd))) \<and>
         (\<forall>rv. res = Inr rv \<longrightarrow>
            CreateNewTransaction \<in> set tr \<and>
            rv = revisionFromTransaction (Suc (transaction_seq pgd)) \<and>
            pgd' = \<lparr>relation_tuple = rows_after (Suc (transaction_seq pgd)) muts (relation_tuple pgd),
                    transaction_seq = Suc (transaction_seq pgd)\<rparr>)"
proof -
  let ?n = "Suc (transaction_seq pgd)"
  note 1 = allocation_iff_passed[OF assms]
  have 2: "xs = Begin # queries pre \<and>
            (\<forall>t \<in> set pre. stored t (relation_tuple pgd)) \<and>
            (\<forall>s \<in> set xs. \<not> is_ExecUpdate s \<and> \<not> is_ExecInsert s) \<and>
            CreateNewTransaction \<notin> set ys"
    if "tr = xs @ CreateNewTransaction # ys" for xs ys
  proof -
    note t = trace_allocation[OF assms that]
    have "CreateNewTransaction \<in> set tr" using that by simp
    with 1 have "\<forall>t \<in> set pre. stored t (relation_tuple pgd)"
      using passed_stored[of eng pgd pre] by blast
    moreover have "\<forall>s \<in> set xs. \<not> is_ExecUpdate s \<and> \<not> is_ExecInsert s"
      using t by auto
    ultimately show ?thesis using t by blast
  qed
  have 3: "CreateNewTransaction \<in> set tr \<and> update_set u = [(colDeletedTxn, NumArg ?n)]"
    if "ExecUpdate u \<in> set tr" for u
    using trace_exec[OF assms, THEN conjunct1, of u] that by (auto simp: close_stmt_def deleteTuple_def)
  have 4: "CreateNewTransaction \<in> set tr \<and>
            (\<forall>r \<in> set (exec_insert b []). created_transaction r = ?n)"
    if "ExecInsert b \<in> set tr" for b
    using trace_exec[OF assms, THEN conjunct2, of b] that by (auto simp: exec_insert_bulk new_row_def)
  have 5: "CreateNewTransaction \<in> set tr \<and> rv = revisionFromTransaction ?n \<and>
            pgd' = \<lparr>relation_tuple = rows_after ?n muts (relation_tuple pgd), transaction_seq = ?n\<rparr>"
    if "res = Inr rv" for rv
    using WriteTuples_Inr[OF assms[unfolded that]] by (simp add: plan_def body_plan_def)
  show ?thesis using 1 2 3 4 5 by blast
qed

theorem revision_allocated_once_and_shared_witness:
  "WriteTuples no_refusal \<lparr>relation_tuple = [new_row 1 tuple_a], transaction_seq = 2\<rparr> [tuple_a]
       [\<lparr>operation = RelationTupleUpdate_TOUCH, tuple = tuple_a\<rparr>] =
     (Inr 3,
      \<lparr>relation_tuple = [closed_row 1 3 tuple_a, new_row 3 tuple_a], transaction_seq = 3\<rparr>,
      [Begin, QueryRow (precondition_query tuple_a)] @ CreateNewTransaction #
      [ExecUpdate (close_stmt 3 tuple_a),
       ExecInsert (writeTuple\<lparr>insert_values := [tuple_values 3 tuple_a]\<rparr>), Commit, Rollback]) \<and>
   stored tuple_a [new_row 1 tuple_a] \<and>
   update_set (close_stmt 3 tuple_a) = [(colDeletedTxn, NumArg 3)] \<and>
   exec_insert (writeTuple\<lparr>insert_values := [tuple_values 3 tuple_a]\<rparr>) [] = [new_row 3 tuple_a]"
proof -
  let ?pgd = "\<lparr>relation_tuple = [new_row 1 tuple_a], transaction_seq = 2\<rparr>"
  let ?muts = "[\<lparr>operation = RelationTupleUpdate_TOUCH, tuple = tuple_a\<rparr>]"
  let ?xs = "[Begin, QueryRow (precondition_query tuple_a)]"
  let ?ys = "[ExecUpdate (close_stmt 3 tuple_a),
       ExecInsert (writeTuple\<lparr>insert_values := [tuple_values 3 tuple_a]\<rparr>), Commit, Rollback]"
  have run: "WriteTuples no_refusal ?pgd [tuple_a] ?muts =
     (Inr 3,
      \<lparr>relation_tuple = [closed_row 1 3 tuple_a, new_row 3 tuple_a], transaction_seq = 3\<rparr>,
      ?xs @ CreateNewTransaction # ?ys)"
    by (simp add: run_defs liveDeletedTxnID_def)
  have e: "exec_insert (writeTuple\<lparr>insert_values := [tuple_values 3 tuple_a]\<rparr>) [] = [new_row 3 tuple_a]"
    by (simp add: exec_insert_def insert_row_tuple_values)
  note t = revision_allocated_once_and_shared[OF run]
  from t[THEN conjunct2, THEN conjunct1, rule_format, of ?xs ?ys]
       t[THEN conjunct2, THEN conjunct2, THEN conjunct1, rule_format, of "close_stmt 3 tuple_a"]
       run e
  show ?thesis by simp
qed

subsection \<open>C6: a delete without a live row\<close>

text \<open>
  C6: on an engine that refuses nothing and with every precondition answered, a call
  whose mutations contain a DELETE for a key without a live row succeeds and returns
  the revision of the freshly allocated identifier; the datastore it leaves is the one
  the same call leaves without that DELETE; and the call with that DELETE alone issues
  the closing update, which matches no row, and leaves the table as it was, with only
  the identifier sequence advanced.
\<close>

theorem delete_without_live_row_changes_nothing:
  assumes "\<forall>i v s. eng i v s = None"
    and "\<forall>p \<in> set pre. stored p (relation_tuple pgd)"
    and "operation m = RelationTupleUpdate_DELETE"
    and "live_rows (tuple m) (relation_tuple pgd) = []"
  shows "fst (WriteTuples eng pgd pre (ms1 @ m # ms2)) =
           Inr (revisionFromTransaction (Suc (transaction_seq pgd))) \<and>
         fst (snd (WriteTuples eng pgd pre (ms1 @ m # ms2))) =
           fst (snd (WriteTuples eng pgd pre (ms1 @ ms2))) \<and>
         WriteTuples eng pgd pre [m] =
           (Inr (revisionFromTransaction (Suc (transaction_seq pgd))),
            pgd\<lparr>transaction_seq := Suc (transaction_seq pgd)\<rparr>,
            Begin # queries pre @
              [CreateNewTransaction, ExecUpdate (close_stmt (Suc (transaction_seq pgd)) (tuple m)),
               Commit, Rollback])"
proof -
  let ?n = "Suc (transaction_seq pgd)"
  note s = WriteTuples_succeeds[OF assms(1,2)]
  have a: "rows_after ?n (ms1 @ m # ms2) (relation_tuple pgd) = rows_after ?n (ms1 @ ms2) (relation_tuple pgd)"
    using assms(3,4) by (rule rows_after_delete_no_live)
  have b: "rows_after ?n [m] (relation_tuple pgd) = relation_tuple pgd"
    using rows_after_delete_no_live[OF assms(3,4), of ?n "[]" "[]"]
    by (simp add: rows_after_def closed_tuples_def inserted_tuples_def close_rows_def)
  have c: "plan ?n pre [m] @ [Rollback] =
      Begin # queries pre @ [CreateNewTransaction, ExecUpdate (close_stmt ?n (tuple m)), Commit, Rollback]"
    using assms(3)
    by (simp add: plan_def body_plan_def closed_tuples_def inserted_tuples_def is_close_def is_insert_def)
  have d: "\<lparr>relation_tuple = relation_tuple pgd, transaction_seq = ?n\<rparr> = pgd\<lparr>transaction_seq := ?n\<rparr>"
    by (cases pgd) simp
  show ?thesis
    by (simp add: s a b c d)
qed

theorem delete_without_live_row_changes_nothing_witness:
  "(\<forall>i v s. no_refusal i v s = None) \<and>
   stored tuple_b [closed_row 1 2 tuple_a, new_row 2 tuple_b] \<and>
   live_rows tuple_a [closed_row 1 2 tuple_a, new_row 2 tuple_b] = [] \<and>
   WriteTuples no_refusal
       \<lparr>relation_tuple = [closed_row 1 2 tuple_a, new_row 2 tuple_b], transaction_seq = 2\<rparr>
       [tuple_b] [\<lparr>operation = RelationTupleUpdate_DELETE, tuple = tuple_a\<rparr>] =
     (Inr 3,
      \<lparr>relation_tuple = [closed_row 1 2 tuple_a, new_row 2 tuple_b], transaction_seq = 3\<rparr>,
      [Begin, QueryRow (precondition_query tuple_b), CreateNewTransaction,
       ExecUpdate (close_stmt 3 tuple_a), Commit, Rollback])"
proof -
  let ?pgd = "\<lparr>relation_tuple = [closed_row 1 2 tuple_a, new_row 2 tuple_b], transaction_seq = 2\<rparr>"
  let ?m = "\<lparr>operation = RelationTupleUpdate_DELETE, tuple = tuple_a\<rparr>"
  have h1: "\<forall>i v s. no_refusal i v s = None" by (simp add: no_refusal_def)
  have h2: "\<forall>p \<in> set [tuple_b]. stored p (relation_tuple ?pgd)"
    by (simp add: stored_def row_key_def new_row_def closed_row_def tuple_b_def)
  have h3: "operation ?m = RelationTupleUpdate_DELETE" by simp
  have h4: "live_rows (tuple ?m) (relation_tuple ?pgd) = []"
    by (simp add: live_rows_def live_def closed_row_def new_row_def row_key_def
        liveDeletedTxnID_def tuple_a_def tuple_b_def)
  from delete_without_live_row_changes_nothing[OF h1 h2 h3 h4, of "[]" "[]"] h1 h2 h4
  show ?thesis by (simp add: revisionFromTransaction_def no_refusal_def)
qed

subsection \<open>C7: one live row for each key\<close>



text \<open>
  A CREATE issues no closing update. A CREATE of a key that has a live row: the engine
  that enforces the key constraint refuses the insert and the call rolls back; an
  engine with no key constraint would accept it and keep both rows.
\<close>

lemma create_on_live_key_refused:
  "WriteTuples unique_living \<lparr>relation_tuple = [new_row 1 tuple_a], transaction_seq = 2\<rparr> []
       [\<lparr>operation = RelationTupleUpdate_CREATE, tuple = tuple_a\<rparr>] =
     (Inl (Errorf errUnableToWriteTuples ''duplicate key value violates unique constraint''),
      \<lparr>relation_tuple = [new_row 1 tuple_a], transaction_seq = 3\<rparr>,
      [Begin, CreateNewTransaction,
       ExecInsert (writeTuple\<lparr>insert_values := [tuple_values 3 tuple_a]\<rparr>),
       Rollback])"
  by (simp add: run_defs unique_living_def one_live_per_key_def liveDeletedTxnID_def
      del: distinct_append filter_append map_append set_filter set_append set_map)

lemma create_on_live_key_without_key_constraint:
  "one_live_per_key [new_row 1 tuple_a] \<and>
   WriteTuples no_refusal \<lparr>relation_tuple = [new_row 1 tuple_a], transaction_seq = 2\<rparr> []
       [\<lparr>operation = RelationTupleUpdate_CREATE, tuple = tuple_a\<rparr>] =
     (Inr 3,
      \<lparr>relation_tuple = [new_row 1 tuple_a, new_row 3 tuple_a], transaction_seq = 3\<rparr>,
      [Begin, CreateNewTransaction,
       ExecInsert (writeTuple\<lparr>insert_values := [tuple_values 3 tuple_a]\<rparr>),
       Commit, Rollback]) \<and>
   \<not> one_live_per_key [new_row 1 tuple_a, new_row 3 tuple_a]"
  by (simp add: run_defs one_live_per_key_def)

subsection \<open>C8: what a failure carries\<close>

text \<open>
  C8 says that a failure other than PreconditionFailed carries a stage label, so that a
  caller can tell the stage. Every such failure is built by the same
  \<open>fmt.Errorf(errUnableToWriteTuples, err)\<close>. Here the same cause is raised once by the
  precondition query and once by the commit: the two calls stop at different stages and
  return the same error value.
\<close>

theorem failures_of_two_stages_are_equal:
  "WriteTuples (refuse_at 1 ''connection lost'')
       \<lparr>relation_tuple = [new_row 1 tuple_a], transaction_seq = 1\<rparr> [tuple_a] [] =
     (Inl (Errorf ''unable to write tuples: %w'' ''connection lost''),
      \<lparr>relation_tuple = [new_row 1 tuple_a], transaction_seq = 1\<rparr>,
      [Begin, QueryRow (precondition_query tuple_a), Rollback]) \<and>
   WriteTuples (refuse_at 3 ''connection lost'')
       \<lparr>relation_tuple = [new_row 1 tuple_a], transaction_seq = 1\<rparr> [tuple_a] [] =
     (Inl (Errorf ''unable to write tuples: %w'' ''connection lost''),
      \<lparr>relation_tuple = [new_row 1 tuple_a], transaction_seq = 2\<rparr>,
      [Begin, QueryRow (precondition_query tuple_a), CreateNewTransaction, Commit, Rollback])"
  by (simp add: run_defs refuse_at_def)

text \<open>
  C8 as amended: a failing call returns either PreconditionFailed with a tuple of the
  preconditions list and nothing else, or the cause given by the engine wrapped with
  the one message \<open>unable to write tuples\<close>.
\<close>

theorem failures_wrap_the_cause:
  assumes "WriteTuples eng pgd pre muts = (Inl e, pgd', tr)"
  shows "(\<exists>t \<in> set pre. e = ErrPreconditionFailed t) \<or>
         (\<exists>c i v s. eng i v s = Some c \<and> e = Errorf errUnableToWriteTuples c)"
  using WriteTuples_Inl[OF assms] by blast

theorem failures_wrap_the_cause_witness:
  "WriteTuples (refuse_at 3 ''connection lost'')
       \<lparr>relation_tuple = [new_row 1 tuple_a], transaction_seq = 1\<rparr> [tuple_a] [] =
     (Inl (Errorf errUnableToWriteTuples ''connection lost''),
      \<lparr>relation_tuple = [new_row 1 tuple_a], transaction_seq = 2\<rparr>,
      [Begin, QueryRow (precondition_query tuple_a), CreateNewTransaction, Commit, Rollback]) \<and>
   ((\<exists>t \<in> set [tuple_a]. Errorf errUnableToWriteTuples ''connection lost'' = ErrPreconditionFailed t) \<or>
    (\<exists>c i v s. refuse_at 3 ''connection lost'' i v s = Some c \<and>
       Errorf errUnableToWriteTuples ''connection lost'' = Errorf errUnableToWriteTuples c))"
proof -
  have run: "WriteTuples (refuse_at 3 ''connection lost'')
       \<lparr>relation_tuple = [new_row 1 tuple_a], transaction_seq = 1\<rparr> [tuple_a] [] =
     (Inl (Errorf errUnableToWriteTuples ''connection lost''),
      \<lparr>relation_tuple = [new_row 1 tuple_a], transaction_seq = 2\<rparr>,
      [Begin, QueryRow (precondition_query tuple_a), CreateNewTransaction, Commit, Rollback])"
    by (simp add: run_defs refuse_at_def)
  show ?thesis
    using run failures_wrap_the_cause[OF run] by simp
qed

subsection \<open>C9: revisions of successive calls\<close>

text \<open>
  C9: when a call succeeds and a later call (after any calls in between, failed or
  not) succeeds, the revision of the first is strictly less than the revision of the
  later. A call that fails leaves the table as it was, so no row carries the identifier
  it may have allocated, and every later successful call returns a revision strictly
  greater than any identifier the failed call can have taken.
\<close>

theorem revisions_strictly_increase:
  "(WriteTuples e1 pgd p1 m1 = (Inr r1, pgd1, t1) \<longrightarrow>
    WriteTuples e2 (after_calls cs pgd1) p2 m2 = (Inr r2, pgd2, t2) \<longrightarrow> r1 < r2) \<and>
   (WriteTuples e1 pgd p1 m1 = (Inl err, pgd1, t1) \<longrightarrow>
      relation_tuple pgd1 = relation_tuple pgd \<and>
      (WriteTuples e2 (after_calls cs pgd1) p2 m2 = (Inr r2, pgd2, t2) \<longrightarrow>
         revisionFromTransaction (transaction_seq pgd1) < r2))"
proof -
  have later: "revisionFromTransaction (transaction_seq pgd1) < r2"
    if "WriteTuples e2 (after_calls cs pgd1) p2 m2 = (Inr r2, pgd2, t2)"
    using WriteTuples_Inr[OF that] after_calls_mono[of pgd1 cs]
    by (simp add: revisionFromTransaction_def)
  have "r1 < r2"
    if a: "WriteTuples e1 pgd p1 m1 = (Inr r1, pgd1, t1)"
      and b: "WriteTuples e2 (after_calls cs pgd1) p2 m2 = (Inr r2, pgd2, t2)"
  proof -
    have "r1 = revisionFromTransaction (transaction_seq pgd1)"
      using WriteTuples_Inr[OF a] by simp
    then show ?thesis using later[OF b] by simp
  qed
  moreover have "relation_tuple pgd1 = relation_tuple pgd"
    if "WriteTuples e1 pgd p1 m1 = (Inl err, pgd1, t1)"
    using WriteTuples_Inl[OF that] by simp
  ultimately show ?thesis using later by blast
qed

theorem revisions_strictly_increase_witness:
  "WriteTuples no_refusal \<lparr>relation_tuple = [], transaction_seq = 0\<rparr> []
      [\<lparr>operation = RelationTupleUpdate_CREATE, tuple = tuple_a\<rparr>] =
     (Inr 1, \<lparr>relation_tuple = [new_row 1 tuple_a], transaction_seq = 1\<rparr>,
      plan 1 [] [\<lparr>operation = RelationTupleUpdate_CREATE, tuple = tuple_a\<rparr>] @ [Rollback]) \<and>
   WriteTuples no_refusal
      (after_calls [(refuse_at 2 ''connection lost'', [], [\<lparr>operation = RelationTupleUpdate_CREATE, tuple = tuple_b\<rparr>])]
         \<lparr>relation_tuple = [new_row 1 tuple_a], transaction_seq = 1\<rparr>)
      [tuple_a] [\<lparr>operation = RelationTupleUpdate_DELETE, tuple = tuple_a\<rparr>] =
     (Inr 3, \<lparr>relation_tuple = [closed_row 1 3 tuple_a], transaction_seq = 3\<rparr>,
      plan 3 [tuple_a] [\<lparr>operation = RelationTupleUpdate_DELETE, tuple = tuple_a\<rparr>] @ [Rollback]) \<and>
   (1::int) < 3"
proof -
  let ?c = "\<lparr>operation = RelationTupleUpdate_CREATE, tuple = tuple_a\<rparr>"
  let ?d = "\<lparr>operation = RelationTupleUpdate_DELETE, tuple = tuple_a\<rparr>"
  let ?s1 = "\<lparr>relation_tuple = [new_row 1 tuple_a], transaction_seq = 1\<rparr>"
  let ?cs = "[(refuse_at 2 ''connection lost'', [], [\<lparr>operation = RelationTupleUpdate_CREATE, tuple = tuple_b\<rparr>])]"
  have a: "WriteTuples no_refusal \<lparr>relation_tuple = [], transaction_seq = 0\<rparr> [] [?c] =
     (Inr 1, ?s1, plan 1 [] [?c] @ [Rollback])"
    by (simp add: run_defs plan_def body_plan_def)
  have m: "after_calls ?cs ?s1 = \<lparr>relation_tuple = [new_row 1 tuple_a], transaction_seq = 2\<rparr>"
    by (simp add: run_defs refuse_at_def)
  have b: "WriteTuples no_refusal (after_calls ?cs ?s1) [tuple_a] [?d] =
     (Inr 3, \<lparr>relation_tuple = [closed_row 1 3 tuple_a], transaction_seq = 3\<rparr>,
      plan 3 [tuple_a] [?d] @ [Rollback])"
    unfolding m by (simp add: run_defs plan_def body_plan_def liveDeletedTxnID_def)
  from revisions_strictly_increase[of no_refusal "\<lparr>relation_tuple = [], transaction_seq = 0\<rparr>" "[]" "[?c]"
      1 ?s1 "plan 1 [] [?c] @ [Rollback]" no_refusal ?cs "[tuple_a]" "[?d]" 3
      "\<lparr>relation_tuple = [closed_row 1 3 tuple_a], transaction_seq = 3\<rparr>"
      "plan 3 [tuple_a] [?d] @ [Rollback]"] a b
  show ?thesis by simp
qed

subsection \<open>C10: an operation tag the code does not handle\<close>

text \<open>
  C10: a mutation whose tag is none of CREATE, DELETE and TOUCH has no effect at all:
  the call returns the same result, leaves the same datastore and issues the same
  statements as the call without that mutation.
\<close>

theorem unhandled_operation_is_ignored:
  assumes "operation m \<notin> {RelationTupleUpdate_CREATE, RelationTupleUpdate_DELETE, RelationTupleUpdate_TOUCH}"
  shows "WriteTuples eng pgd pre (ms1 @ m # ms2) = WriteTuples eng pgd pre (ms1 @ ms2)"
proof -
  have "\<not> is_close (operation m)" "\<not> is_insert (operation m)"
    using assms by (auto simp: is_close_def is_insert_def)
  then have eq: "process_updates eng n (ms1 @ m # ms2) b h w = process_updates eng n (ms1 @ ms2) b h w"
    for n b h w by (rule process_updates_skip_mid)
  show ?thesis
    unfolding WriteTuples_def WriteTuples_tx_def eq by (rule refl)
qed

theorem unhandled_operation_is_ignored_witness:
  "RelationTupleUpdate_UNKNOWN \<notin>
     {RelationTupleUpdate_CREATE, RelationTupleUpdate_DELETE, RelationTupleUpdate_TOUCH} \<and>
   WriteTuples no_refusal \<lparr>relation_tuple = [new_row 1 tuple_a], transaction_seq = 1\<rparr> []
      [\<lparr>operation = RelationTupleUpdate_UNKNOWN, tuple = tuple_a\<rparr>] =
   WriteTuples no_refusal \<lparr>relation_tuple = [new_row 1 tuple_a], transaction_seq = 1\<rparr> [] [] \<and>
   WriteTuples no_refusal \<lparr>relation_tuple = [new_row 1 tuple_a], transaction_seq = 1\<rparr> []
      [\<lparr>operation = RelationTupleUpdate_UNKNOWN, tuple = tuple_a\<rparr>] =
     (Inr 2, \<lparr>relation_tuple = [new_row 1 tuple_a], transaction_seq = 2\<rparr>,
      [Begin, CreateNewTransaction, Commit, Rollback])"
proof -
  have h: "operation \<lparr>operation = RelationTupleUpdate_UNKNOWN, tuple = tuple_a\<rparr> \<notin>
     {RelationTupleUpdate_CREATE, RelationTupleUpdate_DELETE, RelationTupleUpdate_TOUCH}"
    by simp
  have e: "WriteTuples no_refusal \<lparr>relation_tuple = [new_row 1 tuple_a], transaction_seq = 1\<rparr> [] [] =
     (Inr 2, \<lparr>relation_tuple = [new_row 1 tuple_a], transaction_seq = 2\<rparr>,
      [Begin, CreateNewTransaction, Commit, Rollback])"
    by (simp add: run_defs)
  show ?thesis
    using unhandled_operation_is_ignored[OF h, of no_refusal
        "\<lparr>relation_tuple = [new_row 1 tuple_a], transaction_seq = 1\<rparr>" "[]" "[]" "[]"] e
    by simp
qed

end
